theory Spec2Isabelle
  imports Complex_Main
begin

section \<open>JavaScript numbers\<close>

text \<open>
  The scheduler computes with JavaScript numbers. Finite values are modelled as exact
  reals (rounding and the sign of zero are left aside); the values that a division by
  zero produces are kept, because \<open>tick\<close> divides by a cycle count that may be zero.
\<close>

datatype number = Fin real | PosInfinity | NegInfinity | NaN

text \<open>\<open>a / b\<close> on numbers.\<close>

fun number_div :: "number \<Rightarrow> number \<Rightarrow> number" where
  "number_div NaN _ = NaN"
| "number_div _ NaN = NaN"
| "number_div (Fin a) (Fin b) =
     (if b \<noteq> 0 then Fin (a / b)
      else if 0 < a then PosInfinity
      else if a < 0 then NegInfinity
      else NaN)"
| "number_div (Fin a) PosInfinity = Fin 0"
| "number_div (Fin a) NegInfinity = Fin 0"
| "number_div PosInfinity (Fin b) = (if 0 \<le> b then PosInfinity else NegInfinity)"
| "number_div NegInfinity (Fin b) = (if 0 \<le> b then NegInfinity else PosInfinity)"
| "number_div PosInfinity PosInfinity = NaN"
| "number_div PosInfinity NegInfinity = NaN"
| "number_div NegInfinity PosInfinity = NaN"
| "number_div NegInfinity NegInfinity = NaN"

text \<open>\<open>Math.floor\<close>.\<close>

fun Math_floor :: "number \<Rightarrow> number" where
  "Math_floor (Fin a) = Fin (of_int \<lfloor>a\<rfloor>)"
| "Math_floor n = n"

text \<open>\<open>Math.min(cycles, this.maximumStepsPerTick)\<close>, the second argument a finite count.\<close>

fun Math_min :: "number \<Rightarrow> nat \<Rightarrow> number" where
  "Math_min (Fin a) k = Fin (min a (real k))"
| "Math_min PosInfinity k = Fin (real k)"
| "Math_min NegInfinity k = NegInfinity"
| "Math_min NaN k = NaN"

text \<open>
  How often the body of \<open>for (var i = 0; i < cycles; i++)\<close> runs: the number of
  naturals below \<open>cycles\<close>. A comparison with \<open>NaN\<close> is false.
\<close>

fun loop_count :: "number \<Rightarrow> nat" where
  "loop_count (Fin a) = nat \<lceil>a\<rceil>"
| "loop_count PosInfinity = 0"
| "loop_count NegInfinity = 0"
| "loop_count NaN = 0"

section \<open>The logic scheduler (component \<open>handler-logic\<close>)\<close>

subsection \<open>Data\<close>

text \<open>
  A child entity as the scheduler sees it: a position, either coordinate possibly
  \<open>undefined\<close>, and the message ids it listens to (\<open>getMessageIds()\<close>).
  Entities are objects: the scheduler's list holds references (naturals), the objects
  live in a store.
\<close>

record child =
  child_x :: "real option"
  child_y :: "real option"
  messageIds :: "string list"

type_synonym ref = nat
type_synonym objects = "ref \<Rightarrow> child"

record camera =
  cam_left :: real
  cam_top :: real
  cam_width :: real
  cam_height :: real
  cam_buffer :: real

text \<open>
  The message object \<open>{deltaT, camera}\<close>; its \<open>camera\<close> is the component's own camera
  object, so the component keeps only \<open>message.deltaT\<close> and the message is assembled
  from both at each dispatch.
\<close>

record message =
  deltaT :: number
  msg_camera :: camera

record handler_logic =
  entities :: "ref list"
  stepLength :: real
  leftoverTime :: real
  maximumStepsPerTick :: nat
  hl_camera :: camera
  message_deltaT :: number
  timeElapsed_name :: string
  objects :: objects

text \<open>The constructor's \<open>definition\<close> argument; an absent key is \<open>None\<close>.\<close>

record definition_hl =
  def_stepLength :: "real option"
  def_buffer :: "real option"

text \<open>\<open>v || d\<close> on an optional number: \<open>undefined\<close> and \<open>0\<close> are falsy.\<close>

definition or_default :: "real option \<Rightarrow> real \<Rightarrow> real" where
  "or_default v d = (case v of None \<Rightarrow> d | Some r \<Rightarrow> if r = 0 then d else r)"

definition component :: "definition_hl \<Rightarrow> objects \<Rightarrow> handler_logic" where
  "component definition objs =
     \<lparr> entities = [],
       stepLength = or_default (def_stepLength definition) 15,
       leftoverTime = 0,
       maximumStepsPerTick = 10,
       hl_camera = \<lparr> cam_left = 0, cam_top = 0, cam_width = 0, cam_height = 0,
                     cam_buffer = or_default (def_buffer definition) 0 \<rparr>,
       message_deltaT = Fin (or_default (def_stepLength definition) 15),
       timeElapsed_name = ''Logic'',
       objects = objs \<rparr>"

text \<open>
  What the rest of the engine does when the scheduler triggers a message. Both are
  outside this component and are parameters of the model:
  \<^item> \<open>handle_logic m r c\<close> is \<open>child.trigger('handle-logic', message)\<close> on the entity
    \<open>r\<close> in state \<open>c\<close>: the entity's new state and whether the trigger returned a
    truthy value. A handler changes the entity it runs on.
  \<^item> \<open>check_collision_group m objs\<close> is
    \<open>this.owner.trigger('check-collision-group', message)\<close>: collision resolution may
    move any entity.
\<close>

record env =
  handle_logic :: "message \<Rightarrow> ref \<Rightarrow> child \<Rightarrow> bool \<times> child"
  check_collision_group :: "message \<Rightarrow> objects \<Rightarrow> objects"

text \<open>
  What a tick does to the outside, in order. The times carried by \<open>time-elapsed\<close> are
  wall-clock readings and are not modelled.
\<close>

datatype event =
    HandleLogic ref message
  | TimeElapsed string
  | CheckCollisionGroup message

subsection \<open>\<open>child-entity-added\<close>\<close>

text \<open>
  The loop over \<open>messageIds\<close>: the first \<open>'handle-logic'\<close> pushes the entity and
  breaks.
\<close>

fun add_if_listening :: "string list \<Rightarrow> ref \<Rightarrow> ref list \<Rightarrow> ref list" where
  "add_if_listening [] entity es = es"
| "add_if_listening (m # ms) entity es =
     (if m = ''handle-logic'' then es @ [entity] else add_if_listening ms entity es)"

definition child_entity_added :: "ref \<Rightarrow> handler_logic \<Rightarrow> handler_logic" where
  "child_entity_added entity st =
     st\<lparr> entities := add_if_listening (messageIds (objects st entity)) entity (entities st) \<rparr>"

subsection \<open>\<open>camera-update\<close>\<close>

record camera_msg =
  viewportLeft :: real
  viewportTop :: real
  viewportWidth :: real
  viewportHeight :: real

definition camera_update :: "camera_msg \<Rightarrow> handler_logic \<Rightarrow> handler_logic" where
  "camera_update cam st =
     (let c = (hl_camera st)\<lparr> cam_left := viewportLeft cam, cam_top := viewportTop cam,
                               cam_width := viewportWidth cam, cam_height := viewportHeight cam \<rparr>
      in st\<lparr> hl_camera := (if cam_buffer c = 0 then c\<lparr> cam_buffer := cam_width c / 4 \<rparr> else c) \<rparr>)"

subsection \<open>\<open>tick\<close> / \<open>logic\<close>\<close>

text \<open>The test that lets an entity receive \<open>handle-logic\<close>; a comparison with \<open>undefined\<close> is false.\<close>

definition in_view :: "camera \<Rightarrow> child \<Rightarrow> bool" where
  "in_view cam c =
     (case child_x c of
        None \<Rightarrow> True
      | Some cx \<Rightarrow>
          cx \<ge> cam_left cam - cam_buffer cam \<and>
          cx \<le> cam_left cam + cam_width cam + cam_buffer cam \<and>
          (case child_y c of
             None \<Rightarrow> False
           | Some cy \<Rightarrow>
               cy \<ge> cam_top cam - cam_buffer cam \<and>
               cy \<le> cam_top cam + cam_height cam + cam_buffer cam))"

text \<open>\<open>this.entities.splice(x, 1)\<close>.\<close>

definition splice1 :: "nat \<Rightarrow> 'a list \<Rightarrow> 'a list" where
  "splice1 i xs = take i xs @ drop (Suc i) xs"

text \<open>
  The inner loop \<open>for (x = this.entities.length - 1; x > -1; x--)\<close>. The first
  argument is \<open>x + 1\<close>, the number of indices still to visit; the call for the whole
  loop passes the length of the list. Reading beyond the list cannot happen in the
  source (a splice at \<open>x\<close> leaves every lower index in place); the model leaves the
  list alone there.
\<close>

fun logic_pass ::
  "env \<Rightarrow> message \<Rightarrow> nat \<Rightarrow> ref list \<Rightarrow> objects \<Rightarrow> ref list \<times> objects \<times> event list" where
  "logic_pass e m 0 es objs = (es, objs, [])"
| "logic_pass e m (Suc x) es objs =
     (if x < length es then
        (let child = es ! x in
         if in_view (msg_camera m) (objs child) then
           (let (r, c') = handle_logic e m child (objs child);
                objs' = objs(child := c');
                es' = (if r then es else splice1 x es);
                (es'', objs'', evs) = logic_pass e m x es' objs'
            in (es'', objs'', HandleLogic child m # evs))
         else logic_pass e m x es objs)
      else logic_pass e m x es objs)"

text \<open>
  The outer loop \<open>for (i = 0; i < cycles; i++)\<close>; the first argument is the number of
  iterations left.
\<close>

fun steps :: "env \<Rightarrow> nat \<Rightarrow> handler_logic \<Rightarrow> handler_logic \<times> event list" where
  "steps e 0 st = (st, [])"
| "steps e (Suc n) st =
     (let m = \<lparr> deltaT = message_deltaT st, msg_camera = hl_camera st \<rparr>;
          (es, objs, evs1) = logic_pass e m (length (entities st)) (entities st) (objects st);
          st1 = st\<lparr> entities := es, objects := check_collision_group e m objs,
                    timeElapsed_name := ''Collision'' \<rparr>;
          (st2, evs2) = steps e n st1
      in (st2, evs1 @ [TimeElapsed ''Logic'', CheckCollisionGroup m, TimeElapsed ''Collision'']
                @ evs2))"

text \<open>The number of cycles computed from the accumulated time, before it is clamped.\<close>

definition cycles_of :: "real \<Rightarrow> real \<Rightarrow> number" where
  "cycles_of accumulated step = Math_floor (number_div (Fin accumulated) (Fin step))"

definition tick :: "env \<Rightarrow> real \<Rightarrow> handler_logic \<Rightarrow> handler_logic \<times> event list" where
  "tick e resp_deltaT st =
     (let accumulated = leftoverTime st + resp_deltaT;
          cycles = cycles_of accumulated (stepLength st);
          st1 = st\<lparr> leftoverTime := 0,
                    message_deltaT := number_div (Fin accumulated) cycles \<rparr>;
          (st2, evs) = steps e (loop_count (Math_min cycles (maximumStepsPerTick st1))) st1
      in (st2, evs @ [TimeElapsed (timeElapsed_name st2)]))"

text \<open>The steps a tick ran: one \<open>check-collision-group\<close> trigger closes each.\<close>

fun is_step :: "event \<Rightarrow> bool" where
  "is_step (CheckCollisionGroup m) = True"
| "is_step _ = False"

definition steps_run :: "event list \<Rightarrow> nat" where
  "steps_run evs = length (filter is_step evs)"

text \<open>The message an event carries, if any.\<close>

fun msg_of :: "event \<Rightarrow> message option" where
  "msg_of (HandleLogic r m) = Some m"
| "msg_of (CheckCollisionGroup m) = Some m"
| "msg_of (TimeElapsed n) = None"

subsection \<open>A small world to run the scheduler in\<close>

text \<open>
  Handlers that always report a listener and change nothing, an entity that listens to
  \<open>handle-logic\<close> and has no position, and schedulers built by the constructor.
\<close>

definition idle_env :: env where
  "idle_env = \<lparr> handle_logic = (\<lambda>m r c. (True, c)), check_collision_group = (\<lambda>m objs. objs) \<rparr>"

definition listener :: child where
  "listener = \<lparr> child_x = None, child_y = None, messageIds = [''load'', ''handle-logic''] \<rparr>"

definition default_scheduler :: handler_logic where
  "default_scheduler = component \<lparr> def_stepLength = None, def_buffer = None \<rparr> (\<lambda>r. listener)"

definition scheduler_with_listener :: handler_logic where
  "scheduler_with_listener =
     child_entity_added 0 (component \<lparr> def_stepLength = Some 15, def_buffer = None \<rparr> (\<lambda>r. listener))"

definition message_46 :: message where
  "message_46 = \<lparr> deltaT = Fin (46 / 3),
      msg_camera = \<lparr> cam_left = 0, cam_top = 0, cam_width = 0, cam_height = 0, cam_buffer = 0 \<rparr> \<rparr>"

text \<open>A sequence of \<open>camera-update\<close> messages, delivered in order.\<close>

fun camera_updates :: "camera_msg list \<Rightarrow> handler_logic \<Rightarrow> handler_logic" where
  "camera_updates [] st = st"
| "camera_updates (c # cs) st = camera_updates cs (camera_update c st)"

text \<open>
  A camera message of a given viewport width, an entity far to the right of the camera,
  a world holding it as entity \<open>1\<close>, and a step message whose camera is 320 by 240 with
  a buffer of 80.
\<close>

definition viewport :: "real \<Rightarrow> camera_msg" where
  "viewport w = \<lparr> viewportLeft = 0, viewportTop = 0, viewportWidth = w, viewportHeight = 240 \<rparr>"

definition off_camera :: child where
  "off_camera = \<lparr> child_x = Some 1000, child_y = Some 0, messageIds = [''handle-logic''] \<rparr>"

definition two_children :: objects where
  "two_children = (\<lambda>r. if r = 1 then off_camera else listener)"

definition message_320 :: message where
  "message_320 = \<lparr> deltaT = Fin 15,
      msg_camera = \<lparr> cam_left = 0, cam_top = 0, cam_width = 320, cam_height = 240, cam_buffer = 80 \<rparr> \<rparr>"

section \<open>The collision group (component \<open>CollisionGroup\<close>)\<close>

subsection \<open>Bounding boxes\<close>

text \<open>
  Modelled from the spec: the class \<open>platypus.AABB\<close> is not among the sources. The
  specification describes it as an "axis-aligned bounding box value type with
  reset/include/merge semantics", says that a filtered query "yields a box enclosing all
  matching leaf shapes" and that queries on an empty group return empty results. A box
  is therefore empty or has four bounds; \<open>reset\<close> empties it and \<open>include\<close> widens it to
  enclose another box.
\<close>

datatype AABB = Empty | Box real real real real

text \<open>Modelled from the spec: \<open>AABB.reset()\<close>, which empties the box.\<close>

definition AABB_reset :: "AABB \<Rightarrow> AABB" where
  "AABB_reset a = Empty"

text \<open>
  Modelled from the spec: \<open>AABB.include(other)\<close>, after which the box encloses what it
  enclosed before and \<open>other\<close>.
\<close>

fun AABB_include :: "AABB \<Rightarrow> AABB \<Rightarrow> AABB" where
  "AABB_include Empty b = b"
| "AABB_include (Box l r t b) Empty = Box l r t b"
| "AABB_include (Box l r t b) (Box l' r' t' b') =
     Box (min l l') (max r r') (min t t') (max b b')"

text \<open>\<open>encloses a b\<close>: the box \<open>b\<close> lies within \<open>a\<close>.\<close>

fun encloses :: "AABB \<Rightarrow> AABB \<Rightarrow> bool" where
  "encloses a Empty = True"
| "encloses Empty (Box l r t b) = False"
| "encloses (Box l r t b) (Box l' r' t' b') = (l \<le> l' \<and> r' \<le> r \<and> t \<le> t' \<and> b' \<le> b)"

subsection \<open>Entities, groups and the world\<close>

text \<open>
  Boxes are objects as well: a query with a filter builds a new one, a query without
  returns the group's own. They live in a store of their own, addressed by naturals;
  \<open>next_box\<close> is the first address not yet handed out by \<open>new platypus.AABB()\<close>.
\<close>

type_synonym aref = nat

text \<open>
  An entity as the collision group sees it. \<open>collisionTypes\<close> may be absent; looking a
  type up in \<open>solidCollisions\<close> may give \<open>undefined\<close>. The entity's own methods
  \<open>getAABB(type)\<close>, \<open>getPreviousAABB(type)\<close> and \<open>getAABB()\<close> belong to another component;
  each hands out one of the entity's boxes.
\<close>

record entity =
  ent_x :: real
  ent_y :: real
  previousX :: real
  previousY :: real
  saveDX :: real
  saveDY :: real
  saveOX :: real
  saveOY :: real
  collisionTypes :: "string list option"
  solidCollisions :: "string \<Rightarrow> string list option"
  immobile :: bool
  ent_getAABB :: "string \<Rightarrow> aref"
  ent_getPreviousAABB :: "string \<Rightarrow> aref"
  ent_getAABB_all :: aref

text \<open>
  The component's own fields; its owner is the entity it is attached to. A method of
  the component takes both, the owner and the fields, as its \<open>this\<close>.
\<close>

record group =
  solidEntities :: "ref list"
  aabb :: aref
  prevAABB :: aref

text \<open>
  \<open>groups w e\<close> is the collision group attached to entity \<open>e\<close>, if any: it is what
  \<open>e.collisionGroup\<close> and \<open>e.getCollisionGroupAABB\<close> reach.
\<close>

record world =
  ents :: "ref \<Rightarrow> entity"
  groups :: "ref \<Rightarrow> group option"
  boxes :: "aref \<Rightarrow> AABB"
  next_box :: aref

datatype error = TypeError

subsection \<open>\<open>updateAABB\<close>\<close>

text \<open>
  The box a member contributes to the group's own box: a nested group's cached box for
  a member other than the owner that has a group, the entity's own box otherwise.
\<close>

definition member_box :: "world \<Rightarrow> ref \<Rightarrow> ref \<Rightarrow> aref" where
  "member_box w owner e =
     (case groups w e of
        Some g' \<Rightarrow> if e \<noteq> owner then aabb g' else ent_getAABB_all (ents w e)
      | None \<Rightarrow> ent_getAABB_all (ents w e))"

fun include_all :: "ref \<Rightarrow> aref \<Rightarrow> ref list \<Rightarrow> world \<Rightarrow> world" where
  "include_all owner a [] w = w"
| "include_all owner a (e # es) w =
     include_all owner a es
       (w\<lparr> boxes := (boxes w)(a := AABB_include (boxes w a) (boxes w (member_box w owner e))) \<rparr>)"

definition updateAABB :: "ref \<Rightarrow> group \<Rightarrow> world \<Rightarrow> world" where
  "updateAABB owner g w =
     include_all owner (aabb g) (solidEntities g)
       (w\<lparr> boxes := (boxes w)(aabb g := AABB_reset (boxes w (aabb g))) \<rparr>)"

subsection \<open>\<open>addCollisionEntity\<close>\<close>

text \<open>
  The loop over the entity's collision types: every type with a non-empty list of solid
  collisions appends the entity, unless the entity is immobile. Reading \<open>.length\<close> of a
  missing list throws.
\<close>

fun add_per_type :: "entity \<Rightarrow> ref \<Rightarrow> string list \<Rightarrow> ref list \<Rightarrow> error + ref list" where
  "add_per_type ent e [] solid = Inr solid"
| "add_per_type ent e (t # ts) solid =
     (case solidCollisions ent t of
        None \<Rightarrow> Inl TypeError
      | Some rules \<Rightarrow>
          add_per_type ent e ts (if rules \<noteq> [] \<and> \<not> immobile ent then solid @ [e] else solid))"

definition addCollisionEntity :: "ref \<Rightarrow> group \<Rightarrow> ref \<Rightarrow> world \<Rightarrow> error + world" where
  "addCollisionEntity owner g e w =
     (case collisionTypes (ents w e) of
        None \<Rightarrow> Inr w
      | Some types \<Rightarrow>
          (case add_per_type (ents w e) e types (solidEntities g) of
             Inl err \<Rightarrow> Inl err
           | Inr solid \<Rightarrow>
               (let g' = g\<lparr> solidEntities := solid \<rparr>
                in Inr (updateAABB owner g' (w\<lparr> groups := (groups w)(owner \<mapsto> g') \<rparr>)))))"

text \<open>
  The events \<open>child-entity-added\<close> and \<open>add-collision-entity\<close>, delivered to an entity:
  its collision group, if it has one, runs \<open>addCollisionEntity\<close>.
\<close>

definition add_collision_entity :: "ref \<Rightarrow> ref \<Rightarrow> world \<Rightarrow> error + world" where
  "add_collision_entity owner e w =
     (case groups w owner of
        None \<Rightarrow> Inr w
      | Some g \<Rightarrow> addCollisionEntity owner g e w)"

fun deliver_all :: "ref \<Rightarrow> ref list \<Rightarrow> world \<Rightarrow> error + world" where
  "deliver_all owner [] w = Inr w"
| "deliver_all owner (e # es) w =
     (case add_collision_entity owner e w of
        Inl err \<Rightarrow> Inl err
      | Inr w' \<Rightarrow> deliver_all owner es w')"

subsection \<open>\<open>getAABB\<close> and \<open>getPreviousAABB\<close>\<close>

text \<open>A collision type that is \<open>undefined\<close> or the empty string is falsy.\<close>

definition falsy :: "string option \<Rightarrow> bool" where
  "falsy ct = (case ct of None \<Rightarrow> True | Some s \<Rightarrow> s = [])"

text \<open>
  The loop of a filtered query over the members, including each member's box into the
  new box \<open>a\<close>. \<open>nested e g' w\<close> is the same query on the nested group \<open>g'\<close> of member
  \<open>e\<close>; \<open>own\<close> is the entity's own method. A query that does not return is \<open>None\<close>.
  Nothing called in the loop writes \<open>solidEntities\<close>, so the list the source indexes
  anew in every round is the one the loop starts with.
\<close>

fun query_members ::
  "(ref \<Rightarrow> group \<Rightarrow> world \<Rightarrow> (aref \<times> world) option) \<Rightarrow> (entity \<Rightarrow> string \<Rightarrow> aref) \<Rightarrow>
   ref \<Rightarrow> string \<Rightarrow> aref \<Rightarrow> ref list \<Rightarrow> world \<Rightarrow> (aref \<times> world) option" where
  "query_members nested own owner ct a [] w = Some (a, w)"
| "query_members nested own owner ct a (e # es) w =
     (case (case groups w e of
              Some g' \<Rightarrow> if e \<noteq> owner then nested e g' w else Some (own (ents w e) ct, w)
            | None \<Rightarrow> Some (own (ents w e) ct, w)) of
        None \<Rightarrow> None
      | Some (b, w') \<Rightarrow>
          query_members nested own owner ct a es
            (w'\<lparr> boxes := (boxes w')(a := AABB_include (boxes w' a) (boxes w' b)) \<rparr>))"

text \<open>
  \<open>getAABB\<close> and \<open>getPreviousAABB\<close> differ only in the cached box they return without a
  filter (\<open>cached\<close>) and in the method they call on a member (\<open>own\<close>). The recursion
  into nested groups is bounded by the first argument: a query that needs more nested
  calls than that has not returned. The box that \<open>new platypus.AABB()\<close> makes is empty
  (the class is modelled from the spec, see above).
\<close>

fun aabb_query ::
  "(group \<Rightarrow> aref) \<Rightarrow> (entity \<Rightarrow> string \<Rightarrow> aref) \<Rightarrow> nat \<Rightarrow>
   ref \<Rightarrow> group \<Rightarrow> string option \<Rightarrow> world \<Rightarrow> (aref \<times> world) option" where
  "aabb_query cached own 0 owner g ct w = None"
| "aabb_query cached own (Suc n) owner g ct w =
     (if falsy ct then Some (cached g, w)
      else
        (let a = next_box w;
             w1 = w\<lparr> boxes := (boxes w)(a := Empty), next_box := Suc a \<rparr>
         in query_members (\<lambda>e g' w'. aabb_query cached own n e g' ct w') own
              owner (the ct) a (solidEntities g) w1))"

definition getAABB :: "nat \<Rightarrow> ref \<Rightarrow> group \<Rightarrow> string option \<Rightarrow> world \<Rightarrow> (aref \<times> world) option" where
  "getAABB = aabb_query aabb ent_getAABB"

definition getPreviousAABB ::
  "nat \<Rightarrow> ref \<Rightarrow> group \<Rightarrow> string option \<Rightarrow> world \<Rightarrow> (aref \<times> world) option" where
  "getPreviousAABB = aabb_query prevAABB ent_getPreviousAABB"

subsection \<open>\<open>relocateEntity\<close>\<close>

record vector =
  vec_x :: real
  vec_y :: real

text \<open>
  The class \<open>CollisionData\<close> is not among the sources. \<open>relocateEntity\<close> reads only
  \<open>xCount\<close>, \<open>yCount\<close> and the owner of \<open>thisShape\<close> of each entry: the model keeps, for
  each axis, the list of those owners.
\<close>

record collisionData =
  xEntries :: "ref list"
  yEntries :: "ref list"

text \<open>
  The entity's own \<open>relocateEntity(vector, collisionData)\<close> belongs to another
  component: it is a parameter of the model, acting on the entity it is called on.
\<close>

type_synonym entity_relocate = "vector \<Rightarrow> collisionData \<Rightarrow> entity \<Rightarrow> entity"

text \<open>The loops over the entries of one axis, left at the first entry of the owner.\<close>

fun owner_collides :: "ref \<Rightarrow> ref list \<Rightarrow> bool" where
  "owner_collides owner [] = False"
| "owner_collides owner (s # ss) = (if s = owner then True else owner_collides owner ss)"

text \<open>The first part of \<open>relocateEntity\<close>: the owner's saved deltas.\<close>

definition save_owner_delta :: "ref \<Rightarrow> vector \<Rightarrow> collisionData \<Rightarrow> world \<Rightarrow> world" where
  "save_owner_delta owner v cd w =
     (let o0 = ents w owner;
          o1 = o0\<lparr> saveDX := saveDX o0 - (vec_x v - previousX o0),
                    saveDY := saveDY o0 - (vec_y v - previousY o0) \<rparr>;
          o2 = (if owner_collides owner (xEntries cd) then o1\<lparr> saveDX := 0 \<rparr> else o1);
          o3 = (if owner_collides owner (yEntries cd) then o2\<lparr> saveDY := 0 \<rparr> else o2)
      in w\<lparr> ents := (ents w)(owner := o3) \<rparr>)"

text \<open>
  The call made for one member: on its nested group if it is not the owner and has
  one, on the entity itself otherwise, at the vector less the member's saved offset.
\<close>

definition relocate_child ::
  "(ref \<Rightarrow> group \<Rightarrow> vector \<Rightarrow> world \<Rightarrow> world option) \<Rightarrow> entity_relocate \<Rightarrow>
   ref \<Rightarrow> vector \<Rightarrow> collisionData \<Rightarrow> ref \<Rightarrow> world \<Rightarrow> world option" where
  "relocate_child nested rel owner v cd e w =
     (let v' = \<lparr> vec_x = vec_x v - saveOX (ents w e), vec_y = vec_y v - saveOY (ents w e) \<rparr>
      in case groups w e of
           Some g' \<Rightarrow>
             if e \<noteq> owner then nested e g' v' w
             else Some (w\<lparr> ents := (ents w)(e := rel v' cd (ents w e)) \<rparr>)
         | None \<Rightarrow> Some (w\<lparr> ents := (ents w)(e := rel v' cd (ents w e)) \<rparr>))"

text \<open>
  What follows the call: the member's position takes its own saved delta and, unless
  it is the owner, the owner's.
\<close>

definition carry_member :: "ref \<Rightarrow> ref \<Rightarrow> world \<Rightarrow> world" where
  "carry_member owner e w =
     (let w1 = w\<lparr> ents := (ents w)(e := (ents w e)
                 \<lparr> ent_x := ent_x (ents w e) + saveDX (ents w e),
                   ent_y := ent_y (ents w e) + saveDY (ents w e) \<rparr>) \<rparr>
      in if e \<noteq> owner
         then w1\<lparr> ents := (ents w1)(e := (ents w1 e)
                 \<lparr> ent_x := ent_x (ents w1 e) + saveDX (ents w1 owner),
                   ent_y := ent_y (ents w1 e) + saveDY (ents w1 owner) \<rparr>) \<rparr>
         else w1)"

fun relocate_members ::
  "(ref \<Rightarrow> group \<Rightarrow> vector \<Rightarrow> world \<Rightarrow> world option) \<Rightarrow> entity_relocate \<Rightarrow>
   ref \<Rightarrow> vector \<Rightarrow> collisionData \<Rightarrow> ref list \<Rightarrow> world \<Rightarrow> world option" where
  "relocate_members nested rel owner v cd [] w = Some w"
| "relocate_members nested rel owner v cd (e # es) w =
     (case relocate_child nested rel owner v cd e w of
        None \<Rightarrow> None
      | Some w1 \<Rightarrow> relocate_members nested rel owner v cd es (carry_member owner e w1))"

text \<open>
  \<open>relocateEntity\<close> of the group \<open>g\<close> of \<open>owner\<close>. The first argument bounds the
  recursion into nested groups, as for the queries, and the list of members is the one
  the loop starts with, as nothing it calls writes \<open>solidEntities\<close>.
\<close>

fun relocateEntity ::
  "entity_relocate \<Rightarrow> nat \<Rightarrow> ref \<Rightarrow> group \<Rightarrow> vector \<Rightarrow> collisionData \<Rightarrow> world \<Rightarrow> world option" where
  "relocateEntity rel 0 owner g v cd w = None"
| "relocateEntity rel (Suc n) owner g v cd w =
     relocate_members (\<lambda>e g' v' w'. relocateEntity rel n e g' v' cd w') rel owner v cd
       (solidEntities g) (save_owner_delta owner v cd w)"

subsection \<open>What the properties are stated with\<close>

text \<open>
  The members whose boxes a filtered query unites, as the specification words it: every
  member contributes its own box for the type, except that a member other than the
  owner that has a collision group contributes what that group contributes.
\<close>

fun member_leaves ::
  "(ref \<Rightarrow> group \<Rightarrow> aref list option) \<Rightarrow> (entity \<Rightarrow> string \<Rightarrow> aref) \<Rightarrow>
   world \<Rightarrow> ref \<Rightarrow> string \<Rightarrow> ref list \<Rightarrow> aref list option" where
  "member_leaves nested own w owner ct [] = Some []"
| "member_leaves nested own w owner ct (e # es) =
     (case (case groups w e of
              Some g' \<Rightarrow> if e \<noteq> owner then nested e g' else Some [own (ents w e) ct]
            | None \<Rightarrow> Some [own (ents w e) ct]) of
        None \<Rightarrow> None
      | Some ls \<Rightarrow> map_option ((@) ls) (member_leaves nested own w owner ct es))"

fun leaves ::
  "(entity \<Rightarrow> string \<Rightarrow> aref) \<Rightarrow> nat \<Rightarrow> world \<Rightarrow> ref \<Rightarrow> group \<Rightarrow> string \<Rightarrow> aref list option" where
  "leaves own 0 w owner g ct = None"
| "leaves own (Suc n) w owner g ct =
     member_leaves (\<lambda>e g'. leaves own n w e g' ct) own w owner ct (solidEntities g)"

definition union_boxes :: "AABB list \<Rightarrow> AABB" where
  "union_boxes bs = foldl AABB_include Empty bs"

text \<open>
  No box an entity or a group holds lies at or beyond \<open>next_box\<close>: what \<open>new\<close> hands out
  is new.
\<close>

definition heap_ok :: "world \<Rightarrow> bool" where
  "heap_ok w =
     ((\<forall>e t. ent_getAABB (ents w e) t < next_box w \<and>
             ent_getPreviousAABB (ents w e) t < next_box w) \<and>
      (\<forall>e g. groups w e = Some g \<longrightarrow> aabb g < next_box w \<and> prevAABB g < next_box w))"

text \<open>
  The composition of groups is a tree: a member with a group of its own ranks below the
  owner of the group it is a member of.
\<close>

definition nesting_ranked :: "(ref \<Rightarrow> nat) \<Rightarrow> world \<Rightarrow> bool" where
  "nesting_ranked rank w =
     (\<forall>owner g e g'. groups w owner = Some g \<longrightarrow> e \<in> set (solidEntities g) \<longrightarrow> e \<noteq> owner \<longrightarrow>
        groups w e = Some g' \<longrightarrow> rank e < rank owner)"

text \<open>How many entries one \<open>addCollisionEntity\<close> appends.\<close>

definition qualifying :: "entity \<Rightarrow> string list \<Rightarrow> nat" where
  "qualifying ent types =
     (if immobile ent then 0
      else length (filter (\<lambda>t. case solidCollisions ent t of None \<Rightarrow> False | Some rules \<Rightarrow> rules \<noteq> []) types))"

definition solid_of :: "ref \<Rightarrow> error + world \<Rightarrow> ref list option" where
  "solid_of owner r = (case r of Inl err \<Rightarrow> None | Inr w \<Rightarrow> map_option solidEntities (groups w owner))"

text \<open>
  What a filtered query that returns has done, \<open>ls\<close> being the boxes it had to unite:
  the box returned is a new one holding their union, and entities, groups and the boxes
  that existed before are as they were.
\<close>

definition own_ok :: "(entity \<Rightarrow> string \<Rightarrow> aref) \<Rightarrow> world \<Rightarrow> bool" where
  "own_ok own w = (\<forall>e t. own (ents w e) t < next_box w)"

definition query_post :: "world \<Rightarrow> aref list \<Rightarrow> (aref \<times> world) option \<Rightarrow> bool" where
  "query_post w ls res =
     (case res of
        None \<Rightarrow> False
      | Some (a, w') \<Rightarrow>
          a = next_box w \<and> ents w' = ents w \<and> groups w' = groups w \<and>
          next_box w < next_box w' \<and> (\<forall>r < next_box w. boxes w' r = boxes w r) \<and>
          boxes w' a = union_boxes (map (boxes w) ls))"

text \<open>The saved deltas of an entity.\<close>

definition saved :: "entity \<Rightarrow> real \<times> real" where
  "saved e = (saveDX e, saveDY e)"

text \<open>
  The entities that get a turn in a loop of \<open>relocateEntity\<close> nested in the call made
  for the group of \<open>e\<close>: the members of that group and, through every member other than
  \<open>e\<close> itself, those of the member's own group.
\<close>

inductive below :: "(ref \<Rightarrow> group option) \<Rightarrow> ref \<Rightarrow> ref \<Rightarrow> bool" for G where
  listed: "G e = Some g \<Longrightarrow> m \<in> set (solidEntities g) \<Longrightarrow> below G e m"
| deeper: "G e = Some g \<Longrightarrow> c \<in> set (solidEntities g) \<Longrightarrow> c \<noteq> e \<Longrightarrow> below G c m \<Longrightarrow> below G e m"

code_pred below .

text \<open>
  The member \<open>m\<close> as the call made for it in its turn leaves it, when no other turn has
  touched it: relocated by its own method at the vector less its saved offset or, for a
  member other than the owner with a group of its own, with the saved deltas that its
  group's \<open>relocateEntity\<close> gives its owner.
\<close>

definition relocated_member ::
  "entity_relocate \<Rightarrow> ref \<Rightarrow> vector \<Rightarrow> collisionData \<Rightarrow> world \<Rightarrow> ref \<Rightarrow> entity" where
  "relocated_member rel owner v cd w m =
     (let w0 = save_owner_delta owner v cd w;
          v' = \<lparr> vec_x = vec_x v - saveOX (ents w0 m), vec_y = vec_y v - saveOY (ents w0 m) \<rparr>
      in if m \<noteq> owner \<and> groups w m \<noteq> None then ents (save_owner_delta m v' cd w0) m
         else rel v' cd (ents w0 m))"

subsection \<open>Example worlds\<close>

text \<open>
  A platform (entity 0) carrying a crate (entity 1) carrying a passenger (entity 2): the
  platform's group holds the platform and the crate, the crate's group the crate and
  the passenger. Boxes 0 to 3 are the groups' cached boxes, boxes 4 to 6 the entities'
  own.
\<close>

definition box_entity :: "real \<Rightarrow> real \<Rightarrow> aref \<Rightarrow> entity" where
  "box_entity px py a =
     \<lparr> ent_x = px, ent_y = py, previousX = px, previousY = py,
       saveDX = 0, saveDY = 0, saveOX = 0, saveOY = 0,
       collisionTypes = Some [''solid''],
       solidCollisions = (\<lambda>t. if t = ''solid'' then Some [''tiles''] else None),
       immobile = False,
       ent_getAABB = (\<lambda>t. a), ent_getPreviousAABB = (\<lambda>t. a), ent_getAABB_all = a \<rparr>"

definition platform_group :: group where
  "platform_group = \<lparr> solidEntities = [0, 1], aabb = 0, prevAABB = 1 \<rparr>"

definition crate_group :: group where
  "crate_group = \<lparr> solidEntities = [1, 2], aabb = 2, prevAABB = 3 \<rparr>"

definition nested_world :: world where
  "nested_world =
     \<lparr> ents = (\<lambda>r. if r = 0 then box_entity 0 0 4
                   else if r = 1 then box_entity 10 (-10) 5
                   else box_entity 12 (-20) 6),
       groups = (\<lambda>r. if r = 0 then Some platform_group
                     else if r = 1 then Some crate_group
                     else None),
       boxes = (\<lambda>a. if a = 0 then Box 0 100 (-10) 10
                    else if a = 4 then Box 0 100 0 10
                    else if a = 5 then Box 10 30 (-10) 0
                    else if a = 6 then Box 12 20 (-20) (-10)
                    else Empty),
       next_box = 7 \<rparr>"

definition nested_rank :: "ref \<Rightarrow> nat" where
  "nested_rank r = 2 - r"

text \<open>
  A fourth entity with two collision types, both with solid collisions, not yet a member
  of any group.
\<close>

definition hero :: entity where
  "hero = (box_entity 5 5 6)
     \<lparr> collisionTypes := Some [''hero'', ''feet''],
       solidCollisions := (\<lambda>t. if t = ''hero'' then Some [''tiles'']
                                else if t = ''feet'' then Some [''tiles'', ''crate'']
                                else None) \<rparr>"

definition hero_world :: world where
  "hero_world = nested_world\<lparr> ents := (ents nested_world)(3 := hero) \<rparr>"

text \<open>
  The crate's group on the move: the crate (entity 1, the owner) came from (10, -10) with
  a saved delta of (2, 3), the passenger (entity 2) has a saved delta of (1, 0) and an
  offset of (-2, 10). The crate is put back at (10, -8) and collides along x. The
  entities' own \<open>relocateEntity\<close> sets the position to the vector.
\<close>

definition set_position :: entity_relocate where
  "set_position v cd e = e\<lparr> ent_x := vec_x v, ent_y := vec_y v \<rparr>"

definition moving_world :: world where
  "moving_world = nested_world
     \<lparr> ents := (\<lambda>r. if r = 1 then (box_entity 12 (-7) 5)
                          \<lparr> previousX := 10, previousY := -10, saveDX := 2, saveDY := 3 \<rparr>
                    else if r = 2 then (box_entity 12 (-20) 6)
                          \<lparr> saveDX := 1, saveOX := -2, saveOY := 10 \<rparr>
                    else ents nested_world r) \<rparr>"

definition pushed_back :: vector where
  "pushed_back = \<lparr> vec_x = 10, vec_y = -8 \<rparr>"

definition stopped_on_x :: collisionData where
  "stopped_on_x = \<lparr> xEntries = [1], yEntries = [] \<rparr>"

text \<open>
  The platform's group on the move, in the same world: the platform (entity 0, the
  owner) is put at (0, 1) and collides along x. In the second world the crate's group
  holds the passenger only.
\<close>

definition lowered :: vector where
  "lowered = \<lparr> vec_x = 0, vec_y = 1 \<rparr>"

definition platform_stopped :: collisionData where
  "platform_stopped = \<lparr> xEntries = [0], yEntries = [] \<rparr>"

definition trailer_group :: group where
  "trailer_group = \<lparr> solidEntities = [2], aabb = 2, prevAABB = 3 \<rparr>"

definition towing_world :: world where
  "towing_world = moving_world\<lparr> groups := (groups moving_world)(1 := Some trailer_group) \<rparr>"


section \<open>Properties of the logic scheduler\<close>

subsection \<open>What one pass and one run of steps leave alone\<close>

lemma logic_pass_events:
  "logic_pass e m k es objs = (es', objs', evs) \<Longrightarrow> ev \<in> set evs \<Longrightarrow> \<exists>r. ev = HandleLogic r m"
proof (induction k arbitrary: es objs es' objs' evs)
  case 0
  then show ?case by simp
next
  case (Suc k)
  then show ?case
    by (auto simp: Let_def split: if_splits prod.splits)
qed

lemma logic_pass_no_step: "steps_run (snd (snd (logic_pass e m k es objs))) = 0"
proof -
  obtain es' objs' evs where p: "logic_pass e m k es objs = (es', objs', evs)"
    by (cases "logic_pass e m k es objs") auto
  have "\<forall>ev \<in> set evs. \<not> is_step ev"
    using logic_pass_events [OF p] by fastforce
  then show ?thesis
    by (simp add: p steps_run_def)
qed

lemma logic_pass_msg:
  "ev \<in> set (snd (snd (logic_pass e m k es objs))) \<Longrightarrow> msg_of ev = Some m"
  using logic_pass_events [of e m k es objs] by (cases "logic_pass e m k es objs") fastforce

lemma steps_run_append: "steps_run (a @ b) = steps_run a + steps_run b"
  by (simp add: steps_run_def)

lemma steps_run_steps: "steps_run (snd (steps e n st)) = n"
proof (induction n arbitrary: st)
  case 0
  then show ?case by (simp add: steps_run_def)
next
  case (Suc n)
  show ?case
  proof -
    let ?m = "\<lparr> deltaT = message_deltaT st, msg_camera = hl_camera st \<rparr>"
    obtain es objs evs1
      where p: "logic_pass e ?m (length (entities st)) (entities st) (objects st) = (es, objs, evs1)"
      by (cases "logic_pass e ?m (length (entities st)) (entities st) (objects st)") auto
    have z: "steps_run evs1 = 0"
      using logic_pass_no_step [of e ?m "length (entities st)" "entities st" "objects st"]
      by (simp add: p)
    let ?st1 = "st\<lparr> entities := es, objects := check_collision_group e ?m objs,
                    timeElapsed_name := ''Collision'' \<rparr>"
    obtain st2 evs2 where q: "steps e n ?st1 = (st2, evs2)"
      by (cases "steps e n ?st1") auto
    have n: "steps_run evs2 = n" using Suc.IH [of ?st1] by (simp add: q)
    show ?thesis
      using z n by (simp add: p q Let_def steps_run_append) (simp add: steps_run_def)
  qed
qed

lemma steps_frame:
  "leftoverTime (fst (steps e n st)) = leftoverTime st \<and>
   message_deltaT (fst (steps e n st)) = message_deltaT st \<and>
   hl_camera (fst (steps e n st)) = hl_camera st \<and>
   stepLength (fst (steps e n st)) = stepLength st \<and>
   maximumStepsPerTick (fst (steps e n st)) = maximumStepsPerTick st"
  by (induction n arbitrary: st) (simp_all add: Let_def split_beta)

lemma steps_msg:
  "ev \<in> set (snd (steps e n st)) \<Longrightarrow> msg_of ev = Some m \<Longrightarrow>
   m = \<lparr> deltaT = message_deltaT st, msg_camera = hl_camera st \<rparr>"
proof (induction n arbitrary: st)
  case 0
  then show ?case by simp
next
  case (Suc n)
  then show ?case
    by (auto simp: Let_def split_beta dest: logic_pass_msg)
qed

subsection \<open>The number of steps of a tick\<close>

lemma ceiling_min_int_nat: "\<lceil>min (of_int f :: real) (real k)\<rceil> = min f (int k)"
proof -
  have "min (of_int f :: real) (real k) = of_int (min f (int k))"
    by (simp add: min_def)
  then show ?thesis by (simp only: ceiling_of_int)
qed

lemma tick_steps_run_eq:
  "steps_run (snd (tick e dT st)) =
     loop_count (Math_min (cycles_of (leftoverTime st + dT) (stepLength st)) (maximumStepsPerTick st))"
  by (simp add: tick_def Let_def split_beta steps_run_append steps_run_steps) (simp add: steps_run_def)

lemma loop_count_Math_min_le: "loop_count (Math_min c k) \<le> k"
proof (cases c)
  case (Fin a)
  have "\<lceil>min a (real k)\<rceil> \<le> \<lceil>real k\<rceil>"
    by (rule ceiling_mono) simp
  then have "nat \<lceil>min a (real k)\<rceil> \<le> k" by simp
  then show ?thesis by (simp add: Fin)
qed simp_all

lemma cycles_of_nonzero: "s \<noteq> 0 \<Longrightarrow> cycles_of a s = Fin (of_int \<lfloor>a / s\<rfloor>)"
  by (simp add: cycles_of_def)

text \<open>
  C3. A tick runs at most \<open>maximumStepsPerTick\<close> steps, however large \<open>deltaT\<close> is; for a
  positive step length and a non-negative accumulated time the number of steps is
  \<open>min (floor ((leftoverTime + deltaT) / stepLength)) maximumStepsPerTick\<close>.
\<close>

theorem tick_steps_run:
  "steps_run (snd (tick e dT st)) \<le> maximumStepsPerTick st \<and>
   (0 < stepLength st \<longrightarrow> 0 \<le> leftoverTime st + dT \<longrightarrow>
      int (steps_run (snd (tick e dT st))) =
        min \<lfloor>(leftoverTime st + dT) / stepLength st\<rfloor> (int (maximumStepsPerTick st)))"
proof (intro conjI impI)
  show "steps_run (snd (tick e dT st)) \<le> maximumStepsPerTick st"
    by (simp only: tick_steps_run_eq loop_count_Math_min_le)
next
  assume s: "0 < stepLength st" and a: "0 \<le> leftoverTime st + dT"
  let ?f = "\<lfloor>(leftoverTime st + dT) / stepLength st\<rfloor>"
  have f: "0 \<le> ?f" using s a by simp
  have "steps_run (snd (tick e dT st)) = nat (min ?f (int (maximumStepsPerTick st)))"
    using s by (simp add: tick_steps_run_eq cycles_of_nonzero ceiling_min_int_nat del: of_int_min)
  then show "int (steps_run (snd (tick e dT st))) = min ?f (int (maximumStepsPerTick st))"
    using f by simp
qed

theorem tick_steps_run_witness:
  "0 < stepLength default_scheduler \<and> 0 \<le> leftoverTime default_scheduler + 1000 \<and>
   steps_run (snd (tick idle_env 1000 default_scheduler)) \<le> 10 \<and>
   int (steps_run (snd (tick idle_env 1000 default_scheduler))) = 10"
  using tick_steps_run [of idle_env 1000 default_scheduler]
  by (simp add: default_scheduler_def component_def or_default_def)

subsection \<open>The accumulated time after a tick\<close>

text \<open>
  C5. After every tick the scheduler's \<open>leftoverTime\<close> is zero.
\<close>

theorem tick_leftoverTime_zero: "leftoverTime (fst (tick e dT st)) = 0"
  by (simp add: tick_def Let_def split_beta steps_frame)

subsection \<open>The message of a step\<close>

lemma tick_msg:
  assumes "ev \<in> set (snd (tick e dT st))" and "msg_of ev = Some m"
  shows "deltaT m =
     number_div (Fin (leftoverTime st + dT)) (cycles_of (leftoverTime st + dT) (stepLength st))"
proof -
  let ?st1 = "st\<lparr> leftoverTime := 0,
     message_deltaT := number_div (Fin (leftoverTime st + dT))
        (cycles_of (leftoverTime st + dT) (stepLength st)) \<rparr>"
  let ?n = "loop_count (Math_min (cycles_of (leftoverTime st + dT) (stepLength st)) (maximumStepsPerTick st))"
  from assms have "ev \<in> set (snd (steps e ?n ?st1))"
    by (auto simp: tick_def Let_def split_beta)
  from steps_msg [OF this assms(2)] show ?thesis by simp
qed

text \<open>
  C4. When the accumulated time holds at least one whole step, every message a tick
  sends (with \<open>handle-logic\<close> and with \<open>check-collision-group\<close>) carries the accumulated
  time divided by the unclamped number of cycles as its \<open>deltaT\<close>.
\<close>

theorem tick_adjusted_delta:
  assumes "stepLength st \<noteq> 0"
    and "1 \<le> \<lfloor>(leftoverTime st + dT) / stepLength st\<rfloor>"
  shows "\<forall>ev \<in> set (snd (tick e dT st)). \<forall>m. msg_of ev = Some m \<longrightarrow>
           deltaT m = Fin ((leftoverTime st + dT) / of_int \<lfloor>(leftoverTime st + dT) / stepLength st\<rfloor>)"
proof (intro ballI allI impI)
  fix ev m
  assume "ev \<in> set (snd (tick e dT st))" and "msg_of ev = Some m"
  from tick_msg [OF this] assms show
    "deltaT m = Fin ((leftoverTime st + dT) / of_int \<lfloor>(leftoverTime st + dT) / stepLength st\<rfloor>)"
    by (simp add: cycles_of_nonzero)
qed

text \<open>
  The example of the specification: a step length of 15, nothing left over, and a tick
  of 46 run three steps, each with a \<open>deltaT\<close> of \<open>46 / 3\<close>.
\<close>

lemma tick_46_events:
  "snd (tick idle_env 46 scheduler_with_listener) =
     [HandleLogic 0 message_46, TimeElapsed ''Logic'', CheckCollisionGroup message_46, TimeElapsed ''Collision'',
      HandleLogic 0 message_46, TimeElapsed ''Logic'', CheckCollisionGroup message_46, TimeElapsed ''Collision'',
      HandleLogic 0 message_46, TimeElapsed ''Logic'', CheckCollisionGroup message_46, TimeElapsed ''Collision'',
      TimeElapsed ''Collision'']"
  by (simp add: scheduler_with_listener_def child_entity_added_def component_def or_default_def listener_def
     tick_def cycles_of_def Let_def idle_env_def eval_nat_numeral in_view_def message_46_def)

theorem tick_adjusted_delta_witness:
  "stepLength scheduler_with_listener \<noteq> 0 \<and>
   1 \<le> \<lfloor>(leftoverTime scheduler_with_listener + 46) / stepLength scheduler_with_listener\<rfloor> \<and>
   \<lfloor>(leftoverTime scheduler_with_listener + 46) / stepLength scheduler_with_listener\<rfloor> = 3 \<and>
   HandleLogic 0 message_46 \<in> set (snd (tick idle_env 46 scheduler_with_listener)) \<and>
   deltaT message_46 = Fin (46 / 3) \<and>
   deltaT message_46 \<noteq> Fin (stepLength scheduler_with_listener)"
proof -
  have s: "stepLength scheduler_with_listener = 15" "leftoverTime scheduler_with_listener = 0"
    by (simp_all add: scheduler_with_listener_def child_entity_added_def component_def or_default_def)
  have h1: "stepLength scheduler_with_listener \<noteq> 0" by (simp add: s)
  have h2: "1 \<le> \<lfloor>(leftoverTime scheduler_with_listener + 46) / stepLength scheduler_with_listener\<rfloor>"
    by (simp add: s)
  have ev: "HandleLogic 0 message_46 \<in> set (snd (tick idle_env 46 scheduler_with_listener))"
    by (simp add: tick_46_events)
  from tick_adjusted_delta [OF h1 h2, of idle_env] ev
  have "deltaT message_46 =
      Fin ((leftoverTime scheduler_with_listener + 46) /
        of_int \<lfloor>(leftoverTime scheduler_with_listener + 46) / stepLength scheduler_with_listener\<rfloor>)"
    by fastforce
  then show ?thesis
    using h1 h2 ev by (simp add: s)
qed

subsection \<open>A tick shorter than a step\<close>

text \<open>
  What a tick does when the accumulated time is less than one step: no step, the
  accumulated time dropped, and the quotient of a division by zero in the message.
\<close>

lemma tick_no_cycle:
  assumes "0 < stepLength st" and "0 \<le> leftoverTime st + dT" and "leftoverTime st + dT < stepLength st"
  shows "tick e dT st =
     (st\<lparr> leftoverTime := 0,
          message_deltaT := (if leftoverTime st + dT = 0 then NaN else PosInfinity) \<rparr>,
      [TimeElapsed (timeElapsed_name st)])"
proof -
  have "\<lfloor>(leftoverTime st + dT) / stepLength st\<rfloor> = 0"
    using assms by (simp add: floor_eq_iff)
  then have c: "cycles_of (leftoverTime st + dT) (stepLength st) = Fin 0"
    using assms(1) by (simp add: cycles_of_def)
  show ?thesis
    using assms(2) by (simp add: tick_def c Let_def)
qed

text \<open>
  C1. With the default step length of 15, a tick of 1 finds no whole step in the
  accumulated time. The code runs no step, yet it divides by the zero cycle count (the
  message's \<open>deltaT\<close> becomes \<open>Infinity\<close>) and resets \<open>leftoverTime\<close> to 0 instead of
  keeping the 1 it had accumulated; two ticks of 8 in a row, 16 in all, run no step
  either.
\<close>

theorem tick_below_stepLength_discards_time:
  "leftoverTime default_scheduler + 1 < stepLength default_scheduler \<and>
   cycles_of (leftoverTime default_scheduler + 1) (stepLength default_scheduler) = Fin 0 \<and>
   steps_run (snd (tick idle_env 1 default_scheduler)) = 0 \<and>
   leftoverTime (fst (tick idle_env 1 default_scheduler)) = 0 \<and>
   message_deltaT (fst (tick idle_env 1 default_scheduler)) = PosInfinity \<and>
   steps_run (snd (tick idle_env 8 (fst (tick idle_env 8 default_scheduler)))) = 0"
  by (simp add: default_scheduler_def component_def or_default_def tick_def cycles_of_def
      Let_def steps_run_def)

subsection \<open>The culling buffer\<close>

lemma camera_update_buffer:
  "cam_buffer (hl_camera (camera_update c st)) =
     (if cam_buffer (hl_camera st) \<noteq> 0 then cam_buffer (hl_camera st) else viewportWidth c / 4)"
  by (simp add: camera_update_def Let_def)

text \<open>
  What a sequence of \<open>camera-update\<close> messages leaves in the buffer. A buffer of zero
  is the "not set" mark: the constructor stores zero for an absent buffer, and each
  \<open>camera-update\<close> that finds zero stores a quarter of the new width. So the buffer is
  defaulted by the first \<open>camera-update\<close> whose width is not zero and is left alone
  from then on, and a buffer other than zero is never overwritten.
\<close>

lemma camera_buffer_after_updates:
  "cam_buffer (hl_camera (camera_updates cams st)) =
     (if cam_buffer (hl_camera st) \<noteq> 0 then cam_buffer (hl_camera st)
      else case find (\<lambda>c. viewportWidth c \<noteq> 0) cams of
             None \<Rightarrow> 0
           | Some c \<Rightarrow> viewportWidth c / 4) \<and>
   cam_buffer (hl_camera (component d objs)) =
     (case def_buffer d of None \<Rightarrow> 0 | Some b \<Rightarrow> b)"
proof
  show "cam_buffer (hl_camera (camera_updates cams st)) =
     (if cam_buffer (hl_camera st) \<noteq> 0 then cam_buffer (hl_camera st)
      else case find (\<lambda>c. viewportWidth c \<noteq> 0) cams of
             None \<Rightarrow> 0
           | Some c \<Rightarrow> viewportWidth c / 4)"
    by (induction cams arbitrary: st) (simp_all add: camera_update_buffer)
  show "cam_buffer (hl_camera (component d objs)) =
     (case def_buffer d of None \<Rightarrow> 0 | Some b \<Rightarrow> b)"
    by (simp add: component_def or_default_def split: option.splits)
qed

text \<open>
  C6. The code does not keep to its own comment, "sets a default buffer ... if the
  buffer was not explicitly set": the constructor stores \<open>definition.buffer || 0\<close> and
  \<open>camera-update\<close> tests \<open>!this.camera.buffer\<close>, so a buffer configured as 0 is
  stored as 0 and overwritten with a quarter of the width, 100, by the first
  \<open>camera-update\<close> of width 400, where a buffer configured as 50 is kept. Nor is the
  default assigned once only when no buffer was configured: after a \<open>camera-update\<close> of
  width 0 the buffer is still 0, and the next one, of width 400, defaults it again, to
  100.
\<close>

theorem camera_buffer_redefaulted:
  "cam_buffer (hl_camera
      (component \<lparr> def_stepLength = None, def_buffer = Some 0 \<rparr> (\<lambda>r. listener))) = 0 \<and>
   cam_buffer (hl_camera (camera_update (viewport 400)
      (component \<lparr> def_stepLength = None, def_buffer = Some 0 \<rparr> (\<lambda>r. listener)))) = 100 \<and>
   cam_buffer (hl_camera (camera_update (viewport 400)
      (component \<lparr> def_stepLength = None, def_buffer = Some 50 \<rparr> (\<lambda>r. listener)))) = 50 \<and>
   cam_buffer (hl_camera default_scheduler) = 0 \<and>
   cam_buffer (hl_camera (camera_update (viewport 0) default_scheduler)) = 0 \<and>
   cam_buffer (hl_camera (camera_update (viewport 400) (camera_update (viewport 0) default_scheduler))) = 100"
  by (simp add: default_scheduler_def component_def or_default_def camera_update_def viewport_def Let_def)

subsection \<open>Culling in one pass over the entities\<close>

lemma count_list_splice1:
  assumes "i < length xs" and "xs ! i \<noteq> a"
  shows "count_list (splice1 i xs) a = count_list xs a"
proof -
  have "xs = take i xs @ xs ! i # drop (Suc i) xs"
    using assms(1) by (rule id_take_nth_drop)
  then have "count_list xs a = count_list (take i xs @ xs ! i # drop (Suc i) xs) a"
    by simp
  also have "\<dots> = count_list (splice1 i xs) a"
    using assms(2) by (simp add: splice1_def)
  finally show ?thesis by simp
qed

lemma take_splice1: "i \<le> length xs \<Longrightarrow> take i (splice1 i xs) = take i xs"
  by (simp add: splice1_def)

lemma length_splice1: "i < length xs \<Longrightarrow> i \<le> length (splice1 i xs)"
  by (simp add: splice1_def)

lemma logic_pass_Suc_dispatch:
  assumes "x < length es" and "in_view (msg_camera m) (objs (es ! x))"
    and "logic_pass e m (Suc x) es objs = (es', objs', evs)"
  obtains keep c' evs' where
    "handle_logic e m (es ! x) (objs (es ! x)) = (keep, c')"
    "logic_pass e m x (if keep then es else splice1 x es) (objs(es ! x := c')) = (es', objs', evs')"
    "evs = HandleLogic (es ! x) m # evs'"
  using assms by (auto simp: Let_def split: prod.splits)

lemma logic_pass_culled:
  "logic_pass e m k es objs = (es', objs', evs) \<Longrightarrow> k \<le> length es \<Longrightarrow>
   \<not> in_view (msg_camera m) (objs r) \<Longrightarrow>
   (\<forall>m'. HandleLogic r m' \<notin> set evs) \<and> objs' r = objs r \<and> count_list es' r = count_list es r"
proof (induction k arbitrary: es objs es' objs' evs)
  case 0
  then show ?case by simp
next
  case (Suc x)
  from Suc.prems(2) have lt: "x < length es" by simp
  show ?case
  proof (cases "in_view (msg_camera m) (objs (es ! x))")
    case False
    with lt Suc.prems(1) have "logic_pass e m x es objs = (es', objs', evs)" by simp
    from Suc.IH [OF this _ Suc.prems(3)] lt show ?thesis by simp
  next
    case True
    with Suc.prems(3) have ne: "es ! x \<noteq> r" by auto
    from lt True Suc.prems(1) obtain keep c' evs' where
      h: "handle_logic e m (es ! x) (objs (es ! x)) = (keep, c')" and
      p: "logic_pass e m x (if keep then es else splice1 x es) (objs(es ! x := c')) = (es', objs', evs')" and
      ev: "evs = HandleLogic (es ! x) m # evs'"
      by (rule logic_pass_Suc_dispatch)
    have len: "x \<le> length (if keep then es else splice1 x es)"
      using lt by (simp add: length_splice1)
    have nv: "\<not> in_view (msg_camera m) ((objs(es ! x := c')) r)"
      using ne Suc.prems(3) by simp
    from Suc.IH [OF p len nv] ne lt ev show ?thesis
      by (simp add: count_list_splice1)
  qed
qed

lemma logic_pass_no_position:
  "logic_pass e m k es objs = (es', objs', evs) \<Longrightarrow> k \<le> length es \<Longrightarrow>
   r \<in> set (take k es) \<Longrightarrow> child_x (objs r) = None \<Longrightarrow> HandleLogic r m \<in> set evs"
proof (induction k arbitrary: es objs es' objs' evs)
  case 0
  then show ?case by simp
next
  case (Suc x)
  from Suc.prems(2) have lt: "x < length es" by simp
  then have tk: "take (Suc x) es = take x es @ [es ! x]"
    by (rule take_Suc_conv_app_nth)
  show ?case
  proof (cases "in_view (msg_camera m) (objs (es ! x))")
    case False
    with Suc.prems(4) have ne: "es ! x \<noteq> r" by (auto simp: in_view_def)
    with Suc.prems(3) tk have mem: "r \<in> set (take x es)" by auto
    from False lt Suc.prems(1) have "logic_pass e m x es objs = (es', objs', evs)" by simp
    from Suc.IH [OF this _ mem Suc.prems(4)] lt show ?thesis by simp
  next
    case True
    from lt True Suc.prems(1) obtain keep c' evs' where
      h: "handle_logic e m (es ! x) (objs (es ! x)) = (keep, c')" and
      p: "logic_pass e m x (if keep then es else splice1 x es) (objs(es ! x := c')) = (es', objs', evs')" and
      ev: "evs = HandleLogic (es ! x) m # evs'"
      by (rule logic_pass_Suc_dispatch)
    show ?thesis
    proof (cases "es ! x = r")
      case True
      with ev show ?thesis by simp
    next
      case False
      with Suc.prems(3) tk have mem: "r \<in> set (take x es)" by auto
      have len: "x \<le> length (if keep then es else splice1 x es)"
        using lt by (simp add: length_splice1)
      have mem': "r \<in> set (take x (if keep then es else splice1 x es))"
        using mem lt by (simp add: take_splice1)
      have np: "child_x ((objs(es ! x := c')) r) = None"
        using False Suc.prems(4) by simp
      from Suc.IH [OF p len mem' np] ev show ?thesis by simp
    qed
  qed
qed

text \<open>
  C7. In the pass of one step, a registered entity with a position outside the camera
  window widened by the buffer (horizontally, or vertically) is sent no \<open>handle-logic\<close>,
  stays in the list as often as it was there and is not changed; a registered entity
  whose \<open>x\<close> is \<open>undefined\<close> is sent \<open>handle-logic\<close>.
\<close>

theorem logic_pass_culling:
  assumes "logic_pass e m (length es) es objs = (es', objs', evs)" and "r \<in> set es"
  shows "(child_x (objs r) = Some cx \<and>
          (cx < cam_left (msg_camera m) - cam_buffer (msg_camera m) \<or>
           cam_left (msg_camera m) + cam_width (msg_camera m) + cam_buffer (msg_camera m) < cx \<or>
           (\<exists>cy. child_y (objs r) = Some cy \<and>
              (cy < cam_top (msg_camera m) - cam_buffer (msg_camera m) \<or>
               cam_top (msg_camera m) + cam_height (msg_camera m) + cam_buffer (msg_camera m) < cy)))
          \<longrightarrow> (\<forall>m'. HandleLogic r m' \<notin> set evs) \<and> r \<in> set es' \<and>
               count_list es' r = count_list es r \<and> objs' r = objs r) \<and>
         (child_x (objs r) = None \<longrightarrow> HandleLogic r m \<in> set evs)"
proof (intro conjI impI)
  assume out: "child_x (objs r) = Some cx \<and>
          (cx < cam_left (msg_camera m) - cam_buffer (msg_camera m) \<or>
           cam_left (msg_camera m) + cam_width (msg_camera m) + cam_buffer (msg_camera m) < cx \<or>
           (\<exists>cy. child_y (objs r) = Some cy \<and>
              (cy < cam_top (msg_camera m) - cam_buffer (msg_camera m) \<or>
               cam_top (msg_camera m) + cam_height (msg_camera m) + cam_buffer (msg_camera m) < cy)))"
  then have nv: "\<not> in_view (msg_camera m) (objs r)"
    by (auto simp: in_view_def split: option.splits)
  from logic_pass_culled [OF assms(1) _ nv]
  have c: "(\<forall>m'. HandleLogic r m' \<notin> set evs) \<and> objs' r = objs r \<and> count_list es' r = count_list es r"
    by simp
  from c show "\<forall>m'. HandleLogic r m' \<notin> set evs" by simp
  from c show "objs' r = objs r" by simp
  from c show "count_list es' r = count_list es r" by simp
  from assms(2) have "count_list es r \<noteq> 0" by (simp add: count_list_0_iff)
  with c have "count_list es' r \<noteq> 0" by simp
  then show "r \<in> set es'" by (simp add: count_list_0_iff)
next
  assume "child_x (objs r) = None"
  from logic_pass_no_position [OF assms(1) _ _ this] assms(2)
  show "HandleLogic r m \<in> set evs" by simp
qed

lemma logic_pass_two_children:
  "logic_pass idle_env message_320 (length [0, 1]) [0, 1] two_children =
     ([0, 1], two_children, [HandleLogic 0 message_320])"
  by (simp add: eval_nat_numeral idle_env_def two_children_def in_view_def message_320_def
      off_camera_def listener_def Let_def fun_eq_iff)

theorem logic_pass_culling_witness:
  "logic_pass idle_env message_320 (length [0, 1]) [0, 1] two_children =
     ([0, 1], two_children, [HandleLogic 0 message_320]) \<and>
   (1::nat) \<in> set [0, 1] \<and> (0::nat) \<in> set [0, 1] \<and>
   child_x (two_children 1) = Some 1000 \<and>
   cam_left (msg_camera message_320) + cam_width (msg_camera message_320) + cam_buffer (msg_camera message_320) < 1000 \<and>
   (\<forall>m'. HandleLogic 1 m' \<notin> set [HandleLogic 0 message_320]) \<and>
   (1::nat) \<in> set [0, 1] \<and>
   child_x (two_children 0) = None \<and>
   HandleLogic 0 message_320 \<in> set [HandleLogic 0 message_320]"
proof (rule conjI)
  show "logic_pass idle_env message_320 (length [0, 1]) [0, 1] two_children =
     ([0, 1], two_children, [HandleLogic 0 message_320])"
    by (rule logic_pass_two_children)
  show "(1::nat) \<in> set [0, 1] \<and> (0::nat) \<in> set [0, 1] \<and>
   child_x (two_children 1) = Some 1000 \<and>
   cam_left (msg_camera message_320) + cam_width (msg_camera message_320) + cam_buffer (msg_camera message_320) < 1000 \<and>
   (\<forall>m'. HandleLogic 1 m' \<notin> set [HandleLogic 0 message_320]) \<and>
   (1::nat) \<in> set [0, 1] \<and>
   child_x (two_children 0) = None \<and>
   HandleLogic 0 message_320 \<in> set [HandleLogic 0 message_320]"
    using logic_pass_culling [OF logic_pass_two_children, of 1 1000]
      logic_pass_culling [OF logic_pass_two_children, of 0 0]
    by (simp add: two_children_def off_camera_def listener_def message_320_def)
qed

subsection \<open>Registration\<close>

lemma add_if_listening_eq:
  "add_if_listening ms r es = (if ''handle-logic'' \<in> set ms then es @ [r] else es)"
  by (induction ms) auto

lemma logic_pass_dispatch_count:
  "logic_pass e m k es objs = (es', objs', evs) \<Longrightarrow> k \<le> length es \<Longrightarrow>
   in_view (msg_camera m) (objs r) \<Longrightarrow>
   (\<forall>c. in_view (msg_camera m) c \<longrightarrow> in_view (msg_camera m) (snd (handle_logic e m r c))) \<Longrightarrow>
   count_list evs (HandleLogic r m) = count_list (take k es) r"
proof (induction k arbitrary: es objs es' objs' evs)
  case 0
  then show ?case by simp
next
  case (Suc x)
  from Suc.prems(2) have lt: "x < length es" by simp
  then have tk: "take (Suc x) es = take x es @ [es ! x]"
    by (rule take_Suc_conv_app_nth)
  show ?case
  proof (cases "in_view (msg_camera m) (objs (es ! x))")
    case False
    with Suc.prems(3) have ne: "es ! x \<noteq> r" by auto
    from False lt Suc.prems(1) have "logic_pass e m x es objs = (es', objs', evs)" by simp
    from Suc.IH [OF this _ Suc.prems(3) Suc.prems(4)] lt ne tk show ?thesis by simp
  next
    case True
    from lt True Suc.prems(1) obtain keep c' evs' where
      h: "handle_logic e m (es ! x) (objs (es ! x)) = (keep, c')" and
      p: "logic_pass e m x (if keep then es else splice1 x es) (objs(es ! x := c')) = (es', objs', evs')" and
      ev: "evs = HandleLogic (es ! x) m # evs'"
      by (rule logic_pass_Suc_dispatch)
    have len: "x \<le> length (if keep then es else splice1 x es)"
      using lt by (simp add: length_splice1)
    have tk': "take x (if keep then es else splice1 x es) = take x es"
      using lt by (simp add: take_splice1)
    have iv: "in_view (msg_camera m) ((objs(es ! x := c')) r)"
    proof (cases "es ! x = r")
      case True
      with Suc.prems(3) Suc.prems(4) h show ?thesis
        by (metis fun_upd_same snd_conv)
    next
      case False
      with Suc.prems(3) show ?thesis by simp
    qed
    from Suc.IH [OF p len iv Suc.prems(4)] tk' tk ev show ?thesis by simp
  qed
qed

text \<open>
  C10. One \<open>child-entity-added\<close> appends the entity once if \<open>'handle-logic'\<close> is among its
  message ids, however often, and not at all otherwise. Nothing looks for the entity in
  the list: a second notification appends it again, and a pass then sends it
  \<open>handle-logic\<close> once for each of its entries (as long as it stays in view).
\<close>

theorem child_entity_added_no_dedup:
  "entities (child_entity_added r st) =
     (if ''handle-logic'' \<in> set (messageIds (objects st r)) then entities st @ [r] else entities st) \<and>
   (''handle-logic'' \<in> set (messageIds (objects st r)) \<longrightarrow>
      entities (child_entity_added r (child_entity_added r st)) = entities st @ [r, r] \<and>
      (in_view (msg_camera m) (objects st r) \<longrightarrow>
       (\<forall>c. in_view (msg_camera m) c \<longrightarrow> in_view (msg_camera m) (snd (handle_logic e m r c))) \<longrightarrow>
       count_list
         (snd (snd (logic_pass e m
            (length (entities (child_entity_added r (child_entity_added r st))))
            (entities (child_entity_added r (child_entity_added r st)))
            (objects (child_entity_added r (child_entity_added r st))))))
         (HandleLogic r m) = count_list (entities st) r + 2))"
proof (intro conjI impI)
  show "entities (child_entity_added r st) =
     (if ''handle-logic'' \<in> set (messageIds (objects st r)) then entities st @ [r] else entities st)"
    by (simp add: child_entity_added_def add_if_listening_eq)
next
  assume "''handle-logic'' \<in> set (messageIds (objects st r))"
  then show "entities (child_entity_added r (child_entity_added r st)) = entities st @ [r, r]"
    by (simp add: child_entity_added_def add_if_listening_eq)
next
  let ?es = "entities st @ [r, r]"
  let ?st2 = "child_entity_added r (child_entity_added r st)"
  assume l: "''handle-logic'' \<in> set (messageIds (objects st r))"
  then have st2: "entities ?st2 = ?es" "objects ?st2 = objects st"
    by (simp_all add: child_entity_added_def add_if_listening_eq)
  assume iv: "in_view (msg_camera m) (objects st r)"
    and stay: "\<forall>c. in_view (msg_camera m) c \<longrightarrow> in_view (msg_camera m) (snd (handle_logic e m r c))"
  obtain es' objs' evs where p: "logic_pass e m (length ?es) ?es (objects st) = (es', objs', evs)"
    by (cases "logic_pass e m (length ?es) ?es (objects st)") auto
  from logic_pass_dispatch_count [OF p _ iv stay]
  have "count_list evs (HandleLogic r m) = count_list (entities st) r + 2"
    by simp
  then show "count_list (snd (snd (logic_pass e m (length (entities ?st2)) (entities ?st2) (objects ?st2))))
          (HandleLogic r m) = count_list (entities st) r + 2"
    by (simp only: st2 p snd_conv)
qed

theorem child_entity_added_no_dedup_witness:
  "''handle-logic'' \<in> set (messageIds (objects default_scheduler 0)) \<and>
   in_view (msg_camera message_320) (objects default_scheduler 0) \<and>
   entities (child_entity_added 0 default_scheduler) = [0] \<and>
   entities (child_entity_added 0 (child_entity_added 0 default_scheduler)) = [0, 0] \<and>
   count_list
     (snd (snd (logic_pass idle_env message_320
        (length (entities (child_entity_added 0 (child_entity_added 0 default_scheduler))))
        (entities (child_entity_added 0 (child_entity_added 0 default_scheduler)))
        (objects (child_entity_added 0 (child_entity_added 0 default_scheduler))))))
     (HandleLogic 0 message_320) = 2"
proof -
  have l: "''handle-logic'' \<in> set (messageIds (objects default_scheduler 0))"
    by (simp add: default_scheduler_def component_def listener_def)
  have iv: "in_view (msg_camera message_320) (objects default_scheduler 0)"
    by (simp add: default_scheduler_def component_def listener_def in_view_def)
  have stay: "\<forall>c. in_view (msg_camera message_320) c \<longrightarrow>
      in_view (msg_camera message_320) (snd (handle_logic idle_env message_320 0 c))"
    by (simp add: idle_env_def)
  have e0: "entities default_scheduler = []"
    by (simp add: default_scheduler_def component_def)
  note t = child_entity_added_no_dedup [of 0 default_scheduler message_320 idle_env]
  from t l have a: "entities (child_entity_added 0 default_scheduler) = entities default_scheduler @ [0]"
    by simp
  from t l have b: "entities (child_entity_added 0 (child_entity_added 0 default_scheduler)) =
      entities default_scheduler @ [0, 0]"
    by blast
  from t l iv stay have c: "count_list
     (snd (snd (logic_pass idle_env message_320
        (length (entities (child_entity_added 0 (child_entity_added 0 default_scheduler))))
        (entities (child_entity_added 0 (child_entity_added 0 default_scheduler)))
        (objects (child_entity_added 0 (child_entity_added 0 default_scheduler))))))
     (HandleLogic 0 message_320) = count_list (entities default_scheduler) 0 + 2"
    by blast
  have a': "entities (child_entity_added 0 default_scheduler) = [0]"
    using a by (simp only: e0 append_Nil)
  have b': "entities (child_entity_added 0 (child_entity_added 0 default_scheduler)) = [0, 0]"
    using b by (simp only: e0 append_Nil)
  have c': "count_list
     (snd (snd (logic_pass idle_env message_320
        (length (entities (child_entity_added 0 (child_entity_added 0 default_scheduler))))
        (entities (child_entity_added 0 (child_entity_added 0 default_scheduler)))
        (objects (child_entity_added 0 (child_entity_added 0 default_scheduler))))))
     (HandleLogic 0 message_320) = 2"
    using c by (simp only: e0 count_list.simps add_0)
  from l iv a' b' c' show ?thesis by blast
qed

section \<open>Properties of the collision group\<close>


lemma include_all_frame:
  "ents (include_all owner a es w) = ents w \<and> groups (include_all owner a es w) = groups w \<and>
   next_box (include_all owner a es w) = next_box w"
  by (induction es arbitrary: w) simp_all

lemma updateAABB_frame:
  "ents (updateAABB owner g w) = ents w \<and> groups (updateAABB owner g w) = groups w \<and>
   next_box (updateAABB owner g w) = next_box w"
  by (simp add: updateAABB_def include_all_frame)

lemma add_per_type_append:
  "\<forall>t \<in> set types. solidCollisions ent t \<noteq> None \<Longrightarrow>
   add_per_type ent e types solid = Inr (solid @ replicate (qualifying ent types) e)"
proof (induction types arbitrary: solid)
  case Nil
  then show ?case by (simp add: qualifying_def)
next
  case (Cons t ts)
  from Cons.prems obtain rules where r: "solidCollisions ent t = Some rules" by auto
  from Cons.prems have "\<forall>t \<in> set ts. solidCollisions ent t \<noteq> None" by simp
  from Cons.IH [OF this] r show ?case
    by (simp add: qualifying_def replicate_app_Cons_same)
qed

lemma AABB_include_Empty_right: "AABB_include a Empty = a"
  by (cases a) simp_all

lemma AABB_include_assoc:
  "AABB_include (AABB_include a b) c = AABB_include a (AABB_include b c)"
  by (cases a; cases b; cases c) (simp_all add: min.assoc max.assoc)

lemma AABB_include_foldl:
  "AABB_include a (foldl AABB_include b xs) = foldl AABB_include (AABB_include a b) xs"
  by (induction xs arbitrary: b) (simp_all add: AABB_include_assoc)

lemma AABB_include_union: "AABB_include a (union_boxes xs) = foldl AABB_include a xs"
  by (simp add: union_boxes_def AABB_include_foldl AABB_include_Empty_right)

lemma member_leaves_cong:
  assumes "ents w1 = ents w" and "groups w1 = groups w"
  shows "member_leaves nested own w1 owner ct es = member_leaves nested own w owner ct es"
  by (induction es) (simp_all add: assms cong: option.case_cong if_cong)

lemma leaves_cong:
  assumes "ents w1 = ents w" and "groups w1 = groups w"
  shows "leaves own n w1 owner g ct = leaves own n w owner g ct"
proof (induction n arbitrary: owner g)
  case 0
  show ?case by simp
next
  case (Suc n)
  have "(\<lambda>e g'. leaves own n w1 e g' ct) = (\<lambda>e g'. leaves own n w e g' ct)"
    by (intro ext) (rule Suc.IH)
  then show ?case
    by (simp add: member_leaves_cong [OF assms])
qed

lemma member_leaves_own:
  assumes "\<And>e g' ls r. nested e g' = Some ls \<Longrightarrow> r \<in> set ls \<Longrightarrow> \<exists>e'. r = own (ents w e') ct"
  shows "member_leaves nested own w owner ct es = Some ls \<Longrightarrow> r \<in> set ls \<Longrightarrow>
         \<exists>e'. r = own (ents w e') ct"
proof (induction es arbitrary: ls)
  case Nil
  then show ?case by simp
next
  case (Cons e es)
  then show ?case
    by (auto split: option.splits if_splits dest: assms)
qed

lemma leaves_own:
  "leaves own n w owner g ct = Some ls \<Longrightarrow> r \<in> set ls \<Longrightarrow> \<exists>e'. r = own (ents w e') ct"
proof (induction n arbitrary: owner g ls r)
  case 0
  then show ?case by simp
next
  case (Suc n)
  from Suc.prems(1)
  have m: "member_leaves (\<lambda>e g'. leaves own n w e g' ct) own w owner ct (solidEntities g) = Some ls"
    by simp
  show ?case
  proof (rule member_leaves_own [OF _ m Suc.prems(2)])
    fix e g' ls' r'
    assume "leaves own n w e g' ct = Some ls'" and "r' \<in> set ls'"
    then show "\<exists>e'. r' = own (ents w e') ct" by (rule Suc.IH)
  qed
qed

lemma leaves_below:
  assumes "own_ok own w" and "leaves own n w owner g ct = Some ls" and "r \<in> set ls"
  shows "r < next_box w"
  using leaves_own [OF assms(2,3)] assms(1) by (auto simp: own_ok_def)


text \<open>One member of the loop: the call made for it, against what it contributes.\<close>

lemma member_call_spec:
  assumes IH: "\<And>e g' w. own_ok own w \<Longrightarrow>
       (case leaves own n w e g' ct of
          None \<Rightarrow> nested e g' w = None
        | Some ls \<Rightarrow> query_post w ls (nested e g' w))"
    and ok0: "own_ok own w0" and a0: "next_box w0 \<le> a"
    and e1: "ents w1 = ents w0" and g1: "groups w1 = groups w0"
    and b1: "\<forall>r < next_box w0. boxes w1 r = boxes w0 r" and a1: "a < next_box w1"
  shows "case (case groups w0 e of
                 Some g' \<Rightarrow> if e \<noteq> owner then leaves own n w0 e g' ct else Some [own (ents w0 e) ct]
               | None \<Rightarrow> Some [own (ents w0 e) ct]) of
           None \<Rightarrow>
             (case groups w1 e of
                Some g' \<Rightarrow> if e \<noteq> owner then nested e g' w1 else Some (own (ents w1 e) ct, w1)
              | None \<Rightarrow> Some (own (ents w1 e) ct, w1)) = None
         | Some ls \<Rightarrow>
             (\<exists>b w'. (case groups w1 e of
                Some g' \<Rightarrow> if e \<noteq> owner then nested e g' w1 else Some (own (ents w1 e) ct, w1)
              | None \<Rightarrow> Some (own (ents w1 e) ct, w1)) = Some (b, w') \<and>
              ents w' = ents w0 \<and> groups w' = groups w0 \<and>
              (\<forall>r < next_box w0. boxes w' r = boxes w0 r) \<and>
              next_box w1 \<le> next_box w' \<and> boxes w' a = boxes w1 a \<and>
              boxes w' b = union_boxes (map (boxes w0) ls))"
proof -
  have le: "next_box w0 \<le> next_box w1" using a0 a1 by simp
  have ok1: "own_ok own w1"
    using ok0 e1 le by (auto simp: own_ok_def intro: less_le_trans)
  have leaf: "\<exists>b w'. Some (own (ents w0 e) ct, w1) = Some (b, w') \<and>
              ents w' = ents w0 \<and> groups w' = groups w0 \<and>
              (\<forall>r < next_box w0. boxes w' r = boxes w0 r) \<and>
              next_box w1 \<le> next_box w' \<and> boxes w' a = boxes w1 a \<and>
              boxes w' b = union_boxes (map (boxes w0) [own (ents w0 e) ct])"
    using ok0 e1 g1 b1 by (simp add: union_boxes_def own_ok_def)
  show ?thesis
  proof (cases "groups w0 e")
    case None
    with leaf g1 e1 show ?thesis by simp
  next
    case (Some g')
    show ?thesis
    proof (cases "e = owner")
      case True
      with Some leaf g1 e1 show ?thesis by simp
    next
      case False
      have lc: "leaves own n w1 e g' ct = leaves own n w0 e g' ct"
        by (rule leaves_cong [OF e1 g1])
      show ?thesis
      proof (cases "leaves own n w0 e g' ct")
        case None
        with IH [OF ok1, of e g'] lc Some False g1 show ?thesis by simp
      next
        case (Some ls)
        with IH [OF ok1, of e g'] lc have qp: "query_post w1 ls (nested e g' w1)" by simp
        then obtain w' where
          r: "nested e g' w1 = Some (next_box w1, w')" and
          f: "ents w' = ents w1" "groups w' = groups w1" "next_box w1 < next_box w'"
             "\<forall>r < next_box w1. boxes w' r = boxes w1 r" and
          u: "boxes w' (next_box w1) = union_boxes (map (boxes w1) ls)"
          by (auto simp: query_post_def split: option.splits)
        have "\<forall>r \<in> set ls. r < next_box w0"
          using leaves_below [OF ok0 Some] by simp
        with b1 have m: "map (boxes w1) ls = map (boxes w0) ls" by simp
        have old: "\<forall>r < next_box w0. boxes w' r = boxes w0 r"
          using f(4) b1 le by (auto intro: less_le_trans)
        from r f u m old a1 e1 g1 \<open>groups w0 e = Some g'\<close> False Some show ?thesis
          by simp
      qed
    qed
  qed
qed

lemma query_members_spec:
  assumes IH: "\<And>e g' w. own_ok own w \<Longrightarrow>
       (case leaves own n w e g' ct of
          None \<Rightarrow> nested e g' w = None
        | Some ls \<Rightarrow> query_post w ls (nested e g' w))"
    and ok0: "own_ok own w0" and a0: "next_box w0 \<le> a"
  shows "ents w1 = ents w0 \<Longrightarrow> groups w1 = groups w0 \<Longrightarrow>
     (\<forall>r < next_box w0. boxes w1 r = boxes w0 r) \<Longrightarrow> a < next_box w1 \<Longrightarrow>
     (case member_leaves (\<lambda>e g'. leaves own n w0 e g' ct) own w0 owner ct es of
        None \<Rightarrow> query_members nested own owner ct a es w1 = None
      | Some ls \<Rightarrow>
          (\<exists>w2. query_members nested own owner ct a es w1 = Some (a, w2) \<and>
             ents w2 = ents w0 \<and> groups w2 = groups w0 \<and>
             (\<forall>r < next_box w0. boxes w2 r = boxes w0 r) \<and>
             next_box w1 \<le> next_box w2 \<and>
             boxes w2 a = foldl AABB_include (boxes w1 a) (map (boxes w0) ls)))"
proof (induction es arbitrary: w1)
  case Nil
  then show ?case by simp
next
  case (Cons e es)
  let ?contrib = "case groups w0 e of
                 Some g' \<Rightarrow> if e \<noteq> owner then leaves own n w0 e g' ct else Some [own (ents w0 e) ct]
               | None \<Rightarrow> Some [own (ents w0 e) ct]"
  let ?call = "case groups w1 e of
                Some g' \<Rightarrow> if e \<noteq> owner then nested e g' w1 else Some (own (ents w1 e) ct, w1)
              | None \<Rightarrow> Some (own (ents w1 e) ct, w1)"
  note mc = member_call_spec [where nested = nested and owner = owner and e = e,
      OF IH ok0 a0 Cons.prems(1) Cons.prems(2) Cons.prems(3) Cons.prems(4)]
  show ?case
  proof (cases ?contrib)
    case None
    with mc have "?call = None" by simp
    with None show ?thesis by simp
  next
    case (Some ls1)
    with mc obtain b w' where
      c: "?call = Some (b, w')" and
      f: "ents w' = ents w0" "groups w' = groups w0"
         "\<forall>r < next_box w0. boxes w' r = boxes w0 r" "next_box w1 \<le> next_box w'"
         "boxes w' a = boxes w1 a" and
      u: "boxes w' b = union_boxes (map (boxes w0) ls1)"
      by auto
    let ?w = "w'\<lparr> boxes := (boxes w')(a := AABB_include (boxes w' a) (boxes w' b)) \<rparr>"
    have p1: "ents ?w = ents w0" "groups ?w = groups w0" using f by simp_all
    have p3: "\<forall>r < next_box w0. boxes ?w r = boxes w0 r" using f(3) a0 by auto
    have p4: "a < next_box ?w" using Cons.prems(4) f(4) by simp
    have acc: "boxes ?w a = foldl AABB_include (boxes w1 a) (map (boxes w0) ls1)"
      using f(5) u by (simp add: AABB_include_union)
    note ih = Cons.IH [OF p1 p3 p4]
    show ?thesis
    proof (cases "member_leaves (\<lambda>e g'. leaves own n w0 e g' ct) own w0 owner ct es")
      case None
      with ih have "query_members nested own owner ct a es ?w = None" by simp
      with None Some c show ?thesis by simp
    next
      case (Some ls2)
      with ih obtain w2 where
        q: "query_members nested own owner ct a es ?w = Some (a, w2)" and
        g: "ents w2 = ents w0" "groups w2 = groups w0"
           "\<forall>r < next_box w0. boxes w2 r = boxes w0 r" "next_box ?w \<le> next_box w2" and
        v: "boxes w2 a = foldl AABB_include (boxes ?w a) (map (boxes w0) ls2)"
        by auto
      have "boxes w2 a = foldl AABB_include (boxes w1 a) (map (boxes w0) (ls1 @ ls2))"
        using v acc by simp
      with q g f(4) c Some \<open>?contrib = Some ls1\<close> show ?thesis
        by simp
    qed
  qed
qed


lemma aabb_query_spec:
  assumes ct: "ct \<noteq> []"
  shows "own_ok own w \<Longrightarrow>
     (case leaves own n w owner g ct of
        None \<Rightarrow> aabb_query cached own n owner g (Some ct) w = None
      | Some ls \<Rightarrow> query_post w ls (aabb_query cached own n owner g (Some ct) w))"
proof (induction n arbitrary: owner g w)
  case 0
  show ?case by simp
next
  case (Suc n)
  let ?a = "next_box w"
  let ?w1 = "w\<lparr> boxes := (boxes w)(?a := Empty), next_box := Suc ?a \<rparr>"
  let ?nested = "\<lambda>e g' w'. aabb_query cached own n e g' (Some ct) w'"
  have q: "aabb_query cached own (Suc n) owner g (Some ct) w =
      query_members ?nested own owner ct ?a (solidEntities g) ?w1"
    using ct by (simp add: falsy_def Let_def)
  have spec: "case member_leaves (\<lambda>e g'. leaves own n w e g' ct) own w owner ct (solidEntities g) of
        None \<Rightarrow> query_members ?nested own owner ct ?a (solidEntities g) ?w1 = None
      | Some ls \<Rightarrow>
          (\<exists>w2. query_members ?nested own owner ct ?a (solidEntities g) ?w1 = Some (?a, w2) \<and>
             ents w2 = ents w \<and> groups w2 = groups w \<and>
             (\<forall>r < next_box w. boxes w2 r = boxes w r) \<and>
             next_box ?w1 \<le> next_box w2 \<and>
             boxes w2 ?a = foldl AABB_include (boxes ?w1 ?a) (map (boxes w) ls))"
    by (rule query_members_spec [where nested = ?nested, OF Suc.IH Suc.prems]) simp_all
  show ?case
  proof (cases "leaves own (Suc n) w owner g ct")
    case None
    with spec q show ?thesis by simp
  next
    case (Some ls)
    with spec obtain w2 where
      "query_members ?nested own owner ct ?a (solidEntities g) ?w1 = Some (?a, w2)"
      "ents w2 = ents w" "groups w2 = groups w" "\<forall>r < next_box w. boxes w2 r = boxes w r"
      "next_box ?w1 \<le> next_box w2"
      "boxes w2 ?a = foldl AABB_include (boxes ?w1 ?a) (map (boxes w) ls)"
      by auto
    with Some q show ?thesis
      by (simp add: query_post_def union_boxes_def)
  qed
qed

lemma aabb_query_no_filter:
  "falsy ct \<Longrightarrow> aabb_query cached own (Suc n) owner g ct w = Some (cached g, w)"
  by simp

lemma member_leaves_Some:
  "(\<And>e g'. e \<in> set es \<Longrightarrow> groups w e = Some g' \<Longrightarrow> e \<noteq> owner \<Longrightarrow> nested e g' \<noteq> None) \<Longrightarrow>
   \<exists>ls. member_leaves nested own w owner ct es = Some ls"
proof (induction es)
  case Nil
  show ?case by simp
next
  case (Cons e es)
  from Cons.IH Cons.prems obtain ls where "member_leaves nested own w owner ct es = Some ls"
    by auto
  moreover have "\<And>g'. groups w e = Some g' \<Longrightarrow> e \<noteq> owner \<Longrightarrow> nested e g' \<noteq> None"
    using Cons.prems by simp
  ultimately show ?case
    by (auto split: option.splits)
qed

lemma leaves_ranked:
  assumes r: "nesting_ranked rank w"
  shows "groups w owner = Some g \<Longrightarrow> rank owner < n \<Longrightarrow> \<exists>ls. leaves own n w owner g ct = Some ls"
proof (induction n arbitrary: owner g)
  case 0
  then show ?case by simp
next
  case (Suc n)
  have "\<exists>ls. member_leaves (\<lambda>e g'. leaves own n w e g' ct) own w owner ct (solidEntities g) = Some ls"
  proof (rule member_leaves_Some)
    fix e g'
    assume e: "e \<in> set (solidEntities g)" "groups w e = Some g'" "e \<noteq> owner"
    with r Suc.prems(1) have "rank e < rank owner"
      by (auto simp: nesting_ranked_def)
    with Suc.prems(2) have "rank e < n" by simp
    from Suc.IH [OF e(2) this] show "leaves own n w e g' ct \<noteq> None" by auto
  qed
  then show ?case by simp
qed

lemma encloses_refl: "encloses a a"
  by (cases a) simp_all

lemma encloses_trans: "encloses a b \<Longrightarrow> encloses b c \<Longrightarrow> encloses a c"
  by (cases a; cases b; cases c) auto

lemma encloses_include_left: "encloses (AABB_include a b) a"
  by (cases a; cases b) simp_all

lemma encloses_include_right: "encloses (AABB_include a b) b"
  by (cases a; cases b) (simp_all add: encloses_refl)

lemma encloses_foldl:
  "encloses acc x \<or> x \<in> set bs \<Longrightarrow> encloses (foldl AABB_include acc bs) x"
proof (induction bs arbitrary: acc)
  case Nil
  then show ?case by simp
next
  case (Cons b bs)
  have "encloses (AABB_include acc b) x \<or> x \<in> set bs"
    using Cons.prems encloses_include_left [of acc b] encloses_include_right [of acc b]
    by (auto intro: encloses_trans)
  then show ?case using Cons.IH by simp
qed

lemma encloses_union_boxes: "x \<in> set bs \<Longrightarrow> encloses (union_boxes bs) x"
  by (simp add: union_boxes_def encloses_foldl)

lemma aabb_query_filtered:
  assumes g: "groups w owner = Some g" and ok: "own_ok own w"
    and c: "cached g < next_box w"
    and r: "nesting_ranked rank w" and n: "rank owner < n" and ct: "ct \<noteq> []"
  shows "\<exists>ls w'. leaves own n w owner g ct = Some ls \<and>
           aabb_query cached own n owner g (Some ct) w = Some (next_box w, w') \<and>
           boxes w' (next_box w) = union_boxes (map (boxes w) ls) \<and>
           (\<forall>r \<in> set ls. encloses (boxes w' (next_box w)) (boxes w r)) \<and>
           ents w' = ents w \<and> groups w' = groups w \<and>
           (\<forall>r < next_box w. boxes w' r = boxes w r) \<and>
           next_box w \<noteq> cached g"
proof -
  from leaves_ranked [OF r g n] obtain ls where ls: "leaves own n w owner g ct = Some ls"
    by blast
  with aabb_query_spec [OF ct ok, where n = n and owner = owner and g = g and cached = cached]
  have "query_post w ls (aabb_query cached own n owner g (Some ct) w)" by simp
  then obtain w' where
    q: "aabb_query cached own n owner g (Some ct) w = Some (next_box w, w')" and
    f: "ents w' = ents w" "groups w' = groups w" "\<forall>r < next_box w. boxes w' r = boxes w r" and
    u: "boxes w' (next_box w) = union_boxes (map (boxes w) ls)"
    by (auto simp: query_post_def split: option.splits)
  have "\<forall>r \<in> set ls. encloses (boxes w' (next_box w)) (boxes w r)"
    by (simp add: u encloses_union_boxes)
  with ls q f u c show ?thesis by auto
qed


lemma heap_ok_own:
  "heap_ok w \<Longrightarrow> own_ok ent_getAABB w \<and> own_ok ent_getPreviousAABB w"
  by (simp add: heap_ok_def own_ok_def)

text \<open>
  C9. Without a filter, \<open>getAABB\<close> and \<open>getPreviousAABB\<close> return the group's cached box
  and change nothing. With a filter, on a composition of groups without cycles, they
  return: the box is a new one (the first address not in use), it holds the union of
  the boxes of the members for that type, a member other than the owner that has a
  group standing for the members of that group, and so encloses each of them; entities,
  groups and every box that existed before, the cached boxes among them, are unchanged.
\<close>

theorem getAABB_fresh_union:
  assumes "groups w owner = Some g" and "heap_ok w"
    and "nesting_ranked rank w" and "rank owner < n"
  shows "getAABB n owner g None w = Some (aabb g, w) \<and>
         getPreviousAABB n owner g None w = Some (prevAABB g, w) \<and>
         (ct \<noteq> [] \<longrightarrow>
            (\<exists>ls w'. leaves ent_getAABB n w owner g ct = Some ls \<and>
               getAABB n owner g (Some ct) w = Some (next_box w, w') \<and>
               boxes w' (next_box w) = union_boxes (map (boxes w) ls) \<and>
               (\<forall>r \<in> set ls. encloses (boxes w' (next_box w)) (boxes w r)) \<and>
               ents w' = ents w \<and> groups w' = groups w \<and>
               (\<forall>r < next_box w. boxes w' r = boxes w r) \<and>
               next_box w \<noteq> aabb g \<and>
               boxes w' (aabb g) = boxes w (aabb g) \<and>
               boxes w' (prevAABB g) = boxes w (prevAABB g)) \<and>
            (\<exists>ls w'. leaves ent_getPreviousAABB n w owner g ct = Some ls \<and>
               getPreviousAABB n owner g (Some ct) w = Some (next_box w, w') \<and>
               boxes w' (next_box w) = union_boxes (map (boxes w) ls) \<and>
               (\<forall>r \<in> set ls. encloses (boxes w' (next_box w)) (boxes w r)) \<and>
               ents w' = ents w \<and> groups w' = groups w \<and>
               (\<forall>r < next_box w. boxes w' r = boxes w r) \<and>
               next_box w \<noteq> prevAABB g \<and>
               boxes w' (aabb g) = boxes w (aabb g) \<and>
               boxes w' (prevAABB g) = boxes w (prevAABB g)))"
proof -
  from assms(4) obtain m where n: "n = Suc m" by (cases n) auto
  have cached: "aabb g < next_box w" "prevAABB g < next_box w"
    using assms(1,2) by (auto simp: heap_ok_def)
  note own = heap_ok_own [OF assms(2)]
  have none: "getAABB n owner g None w = Some (aabb g, w)"
    "getPreviousAABB n owner g None w = Some (prevAABB g, w)"
    by (simp_all add: n getAABB_def getPreviousAABB_def falsy_def)
  have cur: "\<exists>ls w'. leaves ent_getAABB n w owner g ct = Some ls \<and>
               getAABB n owner g (Some ct) w = Some (next_box w, w') \<and>
               boxes w' (next_box w) = union_boxes (map (boxes w) ls) \<and>
               (\<forall>r \<in> set ls. encloses (boxes w' (next_box w)) (boxes w r)) \<and>
               ents w' = ents w \<and> groups w' = groups w \<and>
               (\<forall>r < next_box w. boxes w' r = boxes w r) \<and>
               next_box w \<noteq> aabb g \<and>
               boxes w' (aabb g) = boxes w (aabb g) \<and>
               boxes w' (prevAABB g) = boxes w (prevAABB g)" if "ct \<noteq> []"
    using aabb_query_filtered [where cached = aabb and rank = rank, OF assms(1) conjunct1 [OF own] cached(1) assms(3,4) that] cached
    unfolding getAABB_def by fastforce
  have prev: "\<exists>ls w'. leaves ent_getPreviousAABB n w owner g ct = Some ls \<and>
               getPreviousAABB n owner g (Some ct) w = Some (next_box w, w') \<and>
               boxes w' (next_box w) = union_boxes (map (boxes w) ls) \<and>
               (\<forall>r \<in> set ls. encloses (boxes w' (next_box w)) (boxes w r)) \<and>
               ents w' = ents w \<and> groups w' = groups w \<and>
               (\<forall>r < next_box w. boxes w' r = boxes w r) \<and>
               next_box w \<noteq> prevAABB g \<and>
               boxes w' (aabb g) = boxes w (aabb g) \<and>
               boxes w' (prevAABB g) = boxes w (prevAABB g)" if "ct \<noteq> []"
    using aabb_query_filtered [where cached = prevAABB and rank = rank, OF assms(1) conjunct2 [OF own] cached(2) assms(3,4) that] cached
    unfolding getPreviousAABB_def by fastforce
  from none cur prev show ?thesis by blast
qed

lemma nested_world_ok:
  "groups nested_world 0 = Some platform_group \<and> heap_ok nested_world \<and>
   nesting_ranked nested_rank nested_world \<and> nested_rank 0 < 3"
  by (auto simp: nested_world_def heap_ok_def nesting_ranked_def nested_rank_def box_entity_def
      platform_group_def crate_group_def split: if_splits)

lemma nested_world_getAABB:
  "map_option (\<lambda>(a, w'). (a, boxes w' a)) (getAABB 3 0 platform_group (Some ''solid'') nested_world)
     = Some (7, Box 0 100 (-20) 10)"
  by (simp add: getAABB_def eval_nat_numeral falsy_def Let_def nested_world_def platform_group_def
      crate_group_def box_entity_def)


theorem getAABB_fresh_union_witness:
  "groups nested_world 0 = Some platform_group \<and> heap_ok nested_world \<and>
   nesting_ranked nested_rank nested_world \<and> nested_rank 0 < 3 \<and>
   getAABB 3 0 platform_group None nested_world = Some (0, nested_world) \<and>
   (\<exists>w'. getAABB 3 0 platform_group (Some ''solid'') nested_world = Some (7, w') \<and>
      boxes w' 7 = Box 0 100 (-20) 10 \<and>
      boxes w' 0 = Box 0 100 (-10) 10 \<and>
      ents w' = ents nested_world \<and> groups w' = groups nested_world)"
proof -
  note ok = nested_world_ok
  have h: "groups nested_world 0 = Some platform_group" "heap_ok nested_world"
    "nesting_ranked nested_rank nested_world" "nested_rank 0 < 3"
    using ok by simp_all
  note t = getAABB_fresh_union [OF h, of "''solid''"]
  from t have none: "getAABB 3 0 platform_group None nested_world = Some (aabb platform_group, nested_world)"
    by simp
  from t obtain w' where
    q: "getAABB 3 0 platform_group (Some ''solid'') nested_world = Some (next_box nested_world, w')" and
    f: "ents w' = ents nested_world" "groups w' = groups nested_world"
       "boxes w' (aabb platform_group) = boxes nested_world (aabb platform_group)"
    by auto
  have nb: "next_box nested_world = 7" "aabb platform_group = 0"
    "boxes nested_world 0 = Box 0 100 (-10) 10"
    by (simp_all add: nested_world_def platform_group_def)
  from nested_world_getAABB q have "boxes w' 7 = Box 0 100 (-20) 10"
    by (simp add: nb)
  with q f none h show ?thesis
    by (simp add: nb)
qed

lemma add_collision_entity_Inr:
  assumes "groups w owner = Some g"
    and "collisionTypes (ents w e) = Some types"
    and "\<forall>t \<in> set types. solidCollisions (ents w e) t \<noteq> None"
  shows "\<exists>w1. add_collision_entity owner e w = Inr w1 \<and> ents w1 = ents w \<and>
           groups w1 = (groups w)(owner \<mapsto>
              g\<lparr> solidEntities := solidEntities g @ replicate (qualifying (ents w e) types) e \<rparr>)"
  using assms
  by (simp add: add_collision_entity_def addCollisionEntity_def add_per_type_append
      Let_def updateAABB_frame)

text \<open>
  C2, as the code has it. One delivery of \<open>child-entity-added\<close> or
  \<open>add-collision-entity\<close> appends the entity once for each of its collision types that
  has a non-empty list of solid collisions (not at all if the entity is immobile), and
  nothing looks for the entity in the list: a second delivery appends the same entries
  again.
\<close>

theorem add_collision_entity_appends:
  assumes "groups w owner = Some g"
    and "collisionTypes (ents w e) = Some types"
    and "\<forall>t \<in> set types. solidCollisions (ents w e) t \<noteq> None"
  shows "solid_of owner (add_collision_entity owner e w) =
           Some (solidEntities g @ replicate (qualifying (ents w e) types) e) \<and>
         solid_of owner (deliver_all owner [e, e] w) =
           Some (solidEntities g @ replicate (2 * qualifying (ents w e) types) e)"
proof
  from add_collision_entity_Inr [OF assms] obtain w1 where
    1: "add_collision_entity owner e w = Inr w1" "ents w1 = ents w"
       "groups w1 = (groups w)(owner \<mapsto>
          g\<lparr> solidEntities := solidEntities g @ replicate (qualifying (ents w e) types) e \<rparr>)"
    by blast
  let ?g1 = "g\<lparr> solidEntities := solidEntities g @ replicate (qualifying (ents w e) types) e \<rparr>"
  from 1 show "solid_of owner (add_collision_entity owner e w) =
           Some (solidEntities g @ replicate (qualifying (ents w e) types) e)"
    by (simp add: solid_of_def)
  have g1: "groups w1 owner = Some ?g1" using 1(3) by simp
  have t1: "collisionTypes (ents w1 e) = Some types" using assms(2) 1(2) by simp
  have s1: "\<forall>t \<in> set types. solidCollisions (ents w1 e) t \<noteq> None" using assms(3) 1(2) by simp
  from add_collision_entity_Inr [OF g1 t1 s1] obtain w2 where
    2: "add_collision_entity owner e w1 = Inr w2"
       "groups w2 = (groups w1)(owner \<mapsto>
          ?g1\<lparr> solidEntities := solidEntities ?g1 @ replicate (qualifying (ents w1 e) types) e \<rparr>)"
    by blast
  from 1 2 show "solid_of owner (deliver_all owner [e, e] w) =
           Some (solidEntities g @ replicate (2 * qualifying (ents w e) types) e)"
    by (simp add: solid_of_def replicate_add [symmetric] mult_2)
qed

theorem add_collision_entity_appends_witness:
  "groups hero_world 0 = Some platform_group \<and>
   collisionTypes (ents hero_world 3) = Some [''hero'', ''feet''] \<and>
   solidCollisions (ents hero_world 3) ''hero'' \<noteq> None \<and>
   solidCollisions (ents hero_world 3) ''feet'' \<noteq> None \<and>
   qualifying (ents hero_world 3) [''hero'', ''feet''] = 2 \<and>
   solid_of 0 (add_collision_entity 0 3 hero_world) = Some [0, 1, 3, 3] \<and>
   solid_of 0 (deliver_all 0 [3, 3] hero_world) = Some [0, 1, 3, 3, 3, 3]"
proof -
  have h: "groups hero_world 0 = Some platform_group"
    "collisionTypes (ents hero_world 3) = Some [''hero'', ''feet'']"
    "\<forall>t \<in> set [''hero'', ''feet'']. solidCollisions (ents hero_world 3) t \<noteq> None"
    by (simp_all add: hero_world_def nested_world_def hero_def box_entity_def)
  have q: "qualifying (ents hero_world 3) [''hero'', ''feet''] = 2"
    by (simp add: qualifying_def hero_world_def nested_world_def hero_def box_entity_def)
  note t = add_collision_entity_appends [OF h]
  have r1: "solidEntities platform_group @ replicate 2 (3::nat) = [0, 1, 3, 3]"
    by (simp add: platform_group_def numeral_2_eq_2)
  have r2: "solidEntities platform_group @ replicate (2 * 2) (3::nat) = [0, 1, 3, 3, 3, 3]"
    by (simp add: platform_group_def numeral_2_eq_2)
  from t have a: "solid_of 0 (add_collision_entity 0 3 hero_world) = Some [0, 1, 3, 3]"
    by (simp only: q r1)
  from t have b: "solid_of 0 (deliver_all 0 [3, 3] hero_world) = Some [0, 1, 3, 3, 3, 3]"
    by (simp only: q r2)
  from h have c: "solidCollisions (ents hero_world 3) ''hero'' \<noteq> None"
    "solidCollisions (ents hero_world 3) ''feet'' \<noteq> None"
    by simp_all
  from h(1,2) c q a b show ?thesis by blast
qed

text \<open>
  The claim as written fails: admitting an entity with two qualifying collision types
  leaves it in \<open>solidEntities\<close> twice.
\<close>

theorem addCollisionEntity_duplicates:
  "solid_of 0 (add_collision_entity 0 3 hero_world) = Some [0, 1, 3, 3] \<and>
   \<not> distinct [0, 1, 3, 3 :: nat]"
  by (simp add: solid_of_def add_collision_entity_def addCollisionEntity_def hero_world_def
      nested_world_def hero_def box_entity_def platform_group_def Let_def updateAABB_frame)

subsection \<open>Relocation\<close>

lemma owner_collides_set: "owner_collides owner ss = (owner \<in> set ss)"
  by (induction ss) auto

lemma relocate_members_append:
  "relocate_members nested rel owner v cd (xs @ ys) w =
     (case relocate_members nested rel owner v cd xs w of
        None \<Rightarrow> None
      | Some w1 \<Rightarrow> relocate_members nested rel owner v cd ys w1)"
  by (induction xs arbitrary: w) (simp_all split: option.splits)

lemma carry_member_groups: "groups (carry_member owner e w) = groups w"
  by (simp add: carry_member_def Let_def)

lemma carry_member_saved: "saved (ents (carry_member owner e w) a) = saved (ents w a)"
  by (simp add: carry_member_def Let_def saved_def)

lemma save_owner_delta_groups: "groups (save_owner_delta owner v cd w) = groups w"
  by (simp add: save_owner_delta_def Let_def)

lemma save_owner_delta_other:
  "a \<noteq> owner \<Longrightarrow> ents (save_owner_delta owner v cd w) a = ents w a"
  by (simp add: save_owner_delta_def Let_def)

lemma relocate_child_groups:
  assumes "\<And>e g' v' w1 w2. nested e g' v' w1 = Some w2 \<Longrightarrow> groups w2 = groups w1"
    and "relocate_child nested rel owner v cd e w = Some w'"
  shows "groups w' = groups w"
  using assms(2)
  by (auto simp: relocate_child_def Let_def split: option.splits if_splits dest: assms(1))

lemma relocate_members_groups:
  assumes "\<And>e g' v' w1 w2. nested e g' v' w1 = Some w2 \<Longrightarrow> groups w2 = groups w1"
  shows "relocate_members nested rel owner v cd es w = Some w' \<Longrightarrow> groups w' = groups w"
proof (induction es arbitrary: w)
  case Nil
  then show ?case by simp
next
  case (Cons e es)
  from Cons.prems obtain w1 where
    c: "relocate_child nested rel owner v cd e w = Some w1" and
    r: "relocate_members nested rel owner v cd es (carry_member owner e w1) = Some w'"
    by (auto split: option.splits)
  from Cons.IH [OF r] relocate_child_groups [OF assms c] show ?case
    by (simp add: carry_member_groups)
qed

lemma relocateEntity_groups:
  "relocateEntity rel n owner g v cd w = Some w' \<Longrightarrow> groups w' = groups w"
proof (induction n arbitrary: owner g v w w')
  case 0
  then show ?case by simp
next
  case (Suc n)
  from Suc.prems
  have "groups w' = groups (save_owner_delta owner v cd w)"
    by (simp, elim relocate_members_groups [rotated 1]) (rule Suc.IH)
  then show ?case by (simp add: save_owner_delta_groups)
qed

lemma nesting_rankedD:
  "nesting_ranked rank w \<Longrightarrow> groups w owner = Some g \<Longrightarrow> e \<in> set (solidEntities g) \<Longrightarrow>
   e \<noteq> owner \<Longrightarrow> groups w e = Some g' \<Longrightarrow> rank e < rank owner"
  unfolding nesting_ranked_def by blast


lemma nesting_ranked_groups:
  "groups w' = groups w \<Longrightarrow> nesting_ranked rank w' = nesting_ranked rank w"
  by (simp add: nesting_ranked_def)


lemma relocate_child_saved:
  assumes rel: "\<And>v cd e. saved (rel v cd e) = saved e"
    and nested: "\<And>g' v' w2. e \<noteq> owner \<Longrightarrow> groups w e = Some g' \<Longrightarrow> nested e g' v' w = Some w2 \<Longrightarrow>
            saved (ents w2 a) = saved (ents w a)"
    and c: "relocate_child nested rel owner v cd e w = Some w'"
  shows "saved (ents w' a) = saved (ents w a)"
  using c
  by (auto simp: relocate_child_def Let_def rel split: option.splits if_splits dest: nested)


lemma relocate_members_saved:
  assumes rel: "\<And>v cd e. saved (rel v cd e) = saved e"
    and IH: "\<And>m g' v' w1 w2. relocateEntity rel n m g' v' cd w1 = Some w2 \<Longrightarrow>
            groups w1 m = Some g' \<Longrightarrow> nesting_ranked rank w1 \<Longrightarrow>
            groups w1 a = None \<or> rank m < rank a \<Longrightarrow> saved (ents w2 a) = saved (ents w1 a)"
    and g: "groups w0 owner = Some g" and r: "nesting_ranked rank w0"
    and a: "groups w0 a = None \<or> rank owner \<le> rank a"
  shows "set es \<subseteq> set (solidEntities g) \<Longrightarrow> groups w = groups w0 \<Longrightarrow>
     relocate_members (\<lambda>e g' v' w'. relocateEntity rel n e g' v' cd w') rel owner v cd es w = Some w' \<Longrightarrow>
     saved (ents w' a) = saved (ents w a)"
proof (induction es arbitrary: w)
  case Nil
  then show ?case by simp
next
  case (Cons e es)
  let ?nested = "\<lambda>e g' v' w'. relocateEntity rel n e g' v' cd w'"
  from Cons.prems(3) obtain w1 where
    c: "relocate_child ?nested rel owner v cd e w = Some w1" and
    m: "relocate_members ?nested rel owner v cd es (carry_member owner e w1) = Some w'"
    by (auto split: option.splits)
  have rw: "nesting_ranked rank w"
    using r nesting_ranked_groups [OF Cons.prems(2)] by simp
  have "groups w1 = groups w"
  proof (rule relocate_child_groups [OF _ c])
    fix e' g' v' wa wb
    assume "relocateEntity rel n e' g' v' cd wa = Some wb"
    then show "groups wb = groups wa" by (rule relocateEntity_groups)
  qed
  with Cons.prems(2) have g1: "groups w1 = groups w0" by simp
  have s1: "saved (ents w1 a) = saved (ents w a)"
  proof (rule relocate_child_saved [OF rel _ c])
    fix g' v' w2
    assume ne: "e \<noteq> owner" and ge: "groups w e = Some g'"
      and call: "relocateEntity rel n e g' v' cd w = Some w2"
    from Cons.prems(1) have mem: "e \<in> set (solidEntities g)" by simp
    from ge Cons.prems(2) have "groups w0 e = Some g'" by simp
    from nesting_rankedD [OF r g mem ne this] have "rank e < rank owner" .
    with a Cons.prems(2) have "groups w a = None \<or> rank e < rank a" by auto
    from IH [OF call ge rw this] show "saved (ents w2 a) = saved (ents w a)" .
  qed
  have "saved (ents w' a) = saved (ents (carry_member owner e w1) a)"
    using Cons.IH [OF _ _ m] Cons.prems(1) g1 by (simp add: carry_member_groups)
  with s1 show ?case by (simp add: carry_member_saved)
qed


lemma relocateEntity_saved:
  assumes rel: "\<And>v cd e. saved (rel v cd e) = saved e"
  shows "relocateEntity rel n e g v cd w = Some w' \<Longrightarrow> groups w e = Some g \<Longrightarrow>
         nesting_ranked rank w \<Longrightarrow> groups w a = None \<or> rank e < rank a \<Longrightarrow>
         saved (ents w' a) = saved (ents w a)"
proof (induction n arbitrary: e g v w w')
  case 0
  then show ?case by simp
next
  case (Suc n)
  let ?w0 = "save_owner_delta e v cd w"
  from Suc.prems(2,4) have ne: "a \<noteq> e" by auto
  have g0: "groups ?w0 e = Some g" "nesting_ranked rank ?w0"
    using Suc.prems(2,3) nesting_ranked_groups [OF save_owner_delta_groups, of rank e v cd w]
    by (simp_all add: save_owner_delta_groups)
  have a0: "groups ?w0 a = None \<or> rank e \<le> rank a"
    using Suc.prems(4) by (auto simp: save_owner_delta_groups)
  from Suc.prems(1)
  have m: "relocate_members (\<lambda>e g' v' w'. relocateEntity rel n e g' v' cd w') rel e v cd
       (solidEntities g) ?w0 = Some w'"
    by simp
  have "saved (ents w' a) = saved (ents ?w0 a)"
    by (rule relocate_members_saved [OF rel Suc.IH g0 a0 _ _ m]) simp_all
  with ne show ?case by (simp add: save_owner_delta_other)
qed


lemma relocate_members_returns:
  assumes IH: "\<And>m g' v' w1. nesting_ranked rank w1 \<Longrightarrow> groups w1 m = Some g' \<Longrightarrow> rank m < n \<Longrightarrow>
            \<exists>w2. relocateEntity rel n m g' v' cd w1 = Some w2"
    and g: "groups w0 owner = Some g" and r: "nesting_ranked rank w0" and n: "rank owner \<le> n"
  shows "set es \<subseteq> set (solidEntities g) \<Longrightarrow> groups w = groups w0 \<Longrightarrow>
     \<exists>w'. relocate_members (\<lambda>e g' v' w'. relocateEntity rel n e g' v' cd w') rel owner v cd es w = Some w'"
proof (induction es arbitrary: w)
  case Nil
  show ?case by simp
next
  case (Cons e es)
  let ?nested = "\<lambda>e g' v' w'. relocateEntity rel n e g' v' cd w'"
  have rw: "nesting_ranked rank w"
    using r nesting_ranked_groups [OF Cons.prems(2)] by simp
  have "\<exists>w1. relocate_child ?nested rel owner v cd e w = Some w1"
  proof (cases "groups w e")
    case None
    then show ?thesis by (simp add: relocate_child_def Let_def)
  next
    case (Some g')
    show ?thesis
    proof (cases "e = owner")
      case True
      with Some show ?thesis by (simp add: relocate_child_def Let_def)
    next
      case False
      from Cons.prems(1) have mem: "e \<in> set (solidEntities g)" by simp
      from Some Cons.prems(2) have "groups w0 e = Some g'" by simp
      from nesting_rankedD [OF r g mem False this] have "rank e < rank owner" .
      with n have "rank e < n" by simp
      from IH [OF rw Some this] Some False show ?thesis
        by (simp add: relocate_child_def Let_def)
    qed
  qed
  then obtain w1 where c: "relocate_child ?nested rel owner v cd e w = Some w1" by blast
  have "groups w1 = groups w"
  proof (rule relocate_child_groups [OF _ c])
    fix e' g' v' wa wb
    assume "relocateEntity rel n e' g' v' cd wa = Some wb"
    then show "groups wb = groups wa" by (rule relocateEntity_groups)
  qed
  with Cons.prems(2) have g1: "groups w1 = groups w0" by simp
  from Cons.IH [of "carry_member owner e w1"] Cons.prems(1) g1 c show ?case
    by (simp add: carry_member_groups)
qed


lemma relocateEntity_returns:
  "nesting_ranked rank w \<Longrightarrow> groups w e = Some g \<Longrightarrow> rank e < n \<Longrightarrow>
   \<exists>w'. relocateEntity rel n e g v cd w = Some w'"
proof (induction n arbitrary: e g v w)
  case 0
  then show ?case by simp
next
  case (Suc n)
  let ?w0 = "save_owner_delta e v cd w"
  have g0: "groups ?w0 e = Some g" "nesting_ranked rank ?w0"
    using Suc.prems(1,2) nesting_ranked_groups [OF save_owner_delta_groups, of rank e v cd w]
    by (simp_all add: save_owner_delta_groups)
  from Suc.prems(3) have n: "rank e \<le> n" by simp
  have "\<exists>w'. relocate_members (\<lambda>e g' v' w'. relocateEntity rel n e g' v' cd w') rel e v cd
       (solidEntities g) ?w0 = Some w'"
    by (rule relocate_members_returns [OF Suc.IH g0 n]) simp_all
  then show ?case by simp
qed



lemma save_owner_delta_saved:
  "saved (ents (save_owner_delta owner v cd w) owner) =
     (if owner \<in> set (xEntries cd) then 0
      else saveDX (ents w owner) - (vec_x v - previousX (ents w owner)),
      if owner \<in> set (yEntries cd) then 0
      else saveDY (ents w owner) - (vec_y v - previousY (ents w owner)))"
  by (simp add: save_owner_delta_def Let_def saved_def owner_collides_set)

lemma carry_member_position:
  "ent_x (ents (carry_member owner m w) m) =
     ent_x (ents w m) + saveDX (ents w m) + (if m = owner then 0 else saveDX (ents w owner)) \<and>
   ent_y (ents (carry_member owner m w) m) =
     ent_y (ents w m) + saveDY (ents w m) + (if m = owner then 0 else saveDY (ents w owner))"
  by (simp add: carry_member_def Let_def)

lemma relocate_child_flat:
  "groups w m = None \<or> m = owner \<Longrightarrow>
   relocate_child nested rel owner v cd m w =
     Some (w\<lparr> ents := (ents w)(m := rel \<lparr> vec_x = vec_x v - saveOX (ents w m),
                                          vec_y = vec_y v - saveOY (ents w m) \<rparr> cd (ents w m)) \<rparr>)"
  by (auto simp: relocate_child_def Let_def split: option.splits)

text \<open>
  What a call leaves alone. An entity that has no turn in the loops of a call, being
  neither a member of the group nor of a group nested below a member, is touched by the
  call only if it is the owner, whose saved deltas are set.
\<close>

lemma below_None: "G e = None \<Longrightarrow> \<not> below G e m"
  by (auto elim: below.cases)

lemma save_owner_delta_local:
  "ents w1 e = ents w e \<Longrightarrow> ents (save_owner_delta e v cd w1) e = ents (save_owner_delta e v cd w) e"
  by (simp add: save_owner_delta_def Let_def)

lemma carry_member_other: "a \<noteq> e \<Longrightarrow> ents (carry_member owner e w) a = ents w a"
  by (simp add: carry_member_def Let_def)

lemma relocate_child_apart:
  assumes nested: "\<And>g' v' wd. e \<noteq> owner \<Longrightarrow> groups w e = Some g' \<Longrightarrow> nested e g' v' w = Some wd \<Longrightarrow>
            ents wd a = ents w a"
    and ne: "a \<noteq> e"
    and c: "relocate_child nested rel owner v cd e w = Some w'"
  shows "ents w' a = ents w a"
  using c ne
  by (auto simp: relocate_child_def Let_def split: option.splits if_splits dest: nested)

lemma relocate_members_apart:
  assumes IH: "\<And>e g' v' w1 w2. relocateEntity rel n e g' v' cd w1 = Some w2 \<Longrightarrow>
            groups w1 e = Some g' \<Longrightarrow> \<not> below (groups w1) e a \<Longrightarrow>
            ents w2 a = ents (save_owner_delta e v' cd w1) a"
  shows "\<forall>e \<in> set es. a \<noteq> e \<and> (e \<noteq> owner \<longrightarrow> \<not> below (groups w) e a) \<Longrightarrow>
     relocate_members (\<lambda>e g' v' w'. relocateEntity rel n e g' v' cd w') rel owner v cd es w = Some w' \<Longrightarrow>
     ents w' a = ents w a"
proof (induction es arbitrary: w)
  case Nil
  then show ?case by simp
next
  case (Cons e es)
  let ?N = "\<lambda>e g' v' w'. relocateEntity rel n e g' v' cd w'"
  from Cons.prems(2) obtain w1 where
    c: "relocate_child ?N rel owner v cd e w = Some w1" and
    m: "relocate_members ?N rel owner v cd es (carry_member owner e w1) = Some w'"
    by (auto split: option.splits)
  from Cons.prems(1) have ne: "a \<noteq> e" and nb: "e \<noteq> owner \<longrightarrow> \<not> below (groups w) e a"
    by simp_all
  have g1: "groups w1 = groups w"
  proof (rule relocate_child_groups [OF _ c])
    fix e' g' v' wa wb
    assume "relocateEntity rel n e' g' v' cd wa = Some wb"
    then show "groups wb = groups wa" by (rule relocateEntity_groups)
  qed
  have e1: "ents w1 a = ents w a"
  proof (rule relocate_child_apart [OF _ ne c])
    fix g' v' wd
    assume "e \<noteq> owner" and ge: "groups w e = Some g'"
      and call: "relocateEntity rel n e g' v' cd w = Some wd"
    with nb have "\<not> below (groups w) e a" by simp
    from IH [OF call ge this] ne show "ents wd a = ents w a"
      by (simp add: save_owner_delta_other)
  qed
  have "\<forall>c \<in> set es. a \<noteq> c \<and> (c \<noteq> owner \<longrightarrow> \<not> below (groups (carry_member owner e w1)) c a)"
    using Cons.prems(1) g1 by (simp add: carry_member_groups)
  from Cons.IH [OF this m] have "ents w' a = ents (carry_member owner e w1) a" .
  with ne e1 show ?case by (simp add: carry_member_other)
qed

lemma relocateEntity_apart:
  "relocateEntity rel n e g v cd w = Some w' \<Longrightarrow> groups w e = Some g \<Longrightarrow>
   \<not> below (groups w) e a \<Longrightarrow> ents w' a = ents (save_owner_delta e v cd w) a"
proof (induction n arbitrary: e g v w w')
  case 0
  then show ?case by simp
next
  case (Suc n)
  let ?w0 = "save_owner_delta e v cd w"
  have g0: "groups ?w0 = groups w" by (simp add: save_owner_delta_groups)
  from Suc.prems(1)
  have m: "relocate_members (\<lambda>e g' v' w'. relocateEntity rel n e g' v' cd w') rel e v cd
       (solidEntities g) ?w0 = Some w'"
    by simp
  have "\<forall>c \<in> set (solidEntities g). a \<noteq> c \<and> (c \<noteq> e \<longrightarrow> \<not> below (groups ?w0) c a)"
  proof (intro ballI conjI impI)
    fix c
    assume c: "c \<in> set (solidEntities g)"
    show "a \<noteq> c"
      using Suc.prems(2,3) c below.listed [of "groups w" e g c] by auto
    assume "c \<noteq> e"
    then show "\<not> below (groups ?w0) c a"
      using Suc.prems(2,3) c below.deeper [of "groups w" e g c a] by (auto simp: g0)
  qed
  from relocate_members_apart [OF Suc.IH this m] show ?case .
qed


text \<open>The crate is not a member of the group that holds the passenger only.\<close>

lemma not_below_trailer: "\<not> below (groups towing_world) 1 1"
proof
  assume "below (groups towing_world) 1 1"
  then show False
  proof cases
    case (listed g)
    then show False by (auto simp: towing_world_def trailer_group_def)
  next
    case (deeper g c)
    then have "c = 2" by (auto simp: towing_world_def trailer_group_def)
    moreover have "groups towing_world 2 = None"
      by (simp add: towing_world_def moving_world_def nested_world_def)
    ultimately show False using deeper(4) below_None by blast
  qed
qed

text \<open>
  C8. \<open>relocateEntity\<close> on a composition of groups without cycles returns. When the
  owner is the colliding shape of an x-axis entry and of no y-axis entry, its \<open>saveDX\<close>
  ends as zero and its \<open>saveDY\<close> as the old value less the vertical distance of the
  vector from the previous position, whatever the nested groups do. Every member in
  its turn is relocated (through its nested group, or by its own method) and then has
  its position moved by its own saved delta and, unless it is the owner, by the owner's
  saved delta, which at that moment already is what it is at the end. A member that has
  one turn only, being entered once in the group and a member of no group nested below
  another member, ends where its relocation left it, moved by its own saved delta and,
  unless it is the owner, by the owner's; the nested groups may be of any depth and the
  other members may be entered any number of times.
\<close>

theorem relocateEntity_owner_stopped_on_x:
  assumes rel: "\<forall>v cd e. saved (rel v cd e) = saved e"
    and g: "groups w owner = Some g"
    and r: "nesting_ranked rank w" and n: "rank owner \<le> n"
    and x: "owner \<in> set (xEntries cd)" and y: "owner \<notin> set (yEntries cd)"
  shows "\<exists>w'. relocateEntity rel (Suc n) owner g v cd w = Some w' \<and>
           saveDX (ents w' owner) = 0 \<and>
           saveDY (ents w' owner) = saveDY (ents w owner) - (vec_y v - previousY (ents w owner)) \<and>
           (\<forall>pre m post. solidEntities g = pre @ m # post \<longrightarrow>
              (\<exists>w1 w2.
                 relocate_members (\<lambda>e g' v' w'. relocateEntity rel n e g' v' cd w') rel owner v cd pre
                   (save_owner_delta owner v cd w) = Some w1 \<and>
                 relocate_child (\<lambda>e g' v' w'. relocateEntity rel n e g' v' cd w') rel owner v cd m w1
                   = Some w2 \<and>
                 relocate_members (\<lambda>e g' v' w'. relocateEntity rel n e g' v' cd w') rel owner v cd post
                   (carry_member owner m w2) = Some w' \<and>
                 saved (ents w2 owner) = saved (ents w' owner) \<and>
                 ent_x (ents (carry_member owner m w2) m) =
                   ent_x (ents w2 m) + saveDX (ents w2 m) +
                   (if m = owner then 0 else saveDX (ents w' owner)) \<and>
                 ent_y (ents (carry_member owner m w2) m) =
                   ent_y (ents w2 m) + saveDY (ents w2 m) +
                   (if m = owner then 0 else saveDY (ents w' owner)))) \<and>
           (\<forall>m \<in> set (solidEntities g).
              count_list (solidEntities g) m = 1 \<and>
              (\<forall>e \<in> set (solidEntities g). e \<noteq> owner \<longrightarrow> \<not> below (groups w) e m) \<longrightarrow>
                ent_x (ents w' m) =
                  ent_x (relocated_member rel owner v cd w m) +
                  saveDX (relocated_member rel owner v cd w m) +
                  (if m = owner then 0 else saveDX (ents w' owner)) \<and>
                ent_y (ents w' m) =
                  ent_y (relocated_member rel owner v cd w m) +
                  saveDY (relocated_member rel owner v cd w m) +
                  (if m = owner then 0 else saveDY (ents w' owner)))"
proof -
  let ?N = "\<lambda>e g' v' w'. relocateEntity rel n e g' v' cd w'"
  let ?w0 = "save_owner_delta owner v cd w"
  from rel have rel': "\<And>v cd e. saved (rel v cd e) = saved e" by simp
  have g0: "groups ?w0 owner = Some g" "groups ?w0 = groups w"
    using g by (simp_all add: save_owner_delta_groups)
  have r0: "nesting_ranked rank ?w0"
    using r nesting_ranked_groups [OF g0(2)] by simp
  have a0: "groups ?w0 owner = None \<or> rank owner \<le> rank owner" by simp
  have s0: "saved (ents ?w0 owner) =
      (0, saveDY (ents w owner) - (vec_y v - previousY (ents w owner)))"
    using x y by (simp add: save_owner_delta_saved)
  from n have "rank owner < Suc n" by simp
  from relocateEntity_returns [OF r g this] obtain w' where
    w': "relocateEntity rel (Suc n) owner g v cd w = Some w'" by blast
  then have all: "relocate_members ?N rel owner v cd (solidEntities g) ?w0 = Some w'" by simp
  have frame: "saved (ents wb owner) = saved (ents wa owner)"
    if "set es \<subseteq> set (solidEntities g)" and "groups wa = groups ?w0"
      and "relocate_members ?N rel owner v cd es wa = Some wb" for es wa wb
    by (rule relocate_members_saved [OF rel' relocateEntity_saved [OF rel'] g0(1) r0 a0 that])
  have keep: "groups wb = groups wa"
    if "relocate_members ?N rel owner v cd es wa = Some wb" for es wa wb
    using that
  proof (rule relocate_members_groups [rotated 1])
    fix e' g' v' wc wd
    assume "relocateEntity rel n e' g' v' cd wc = Some wd"
    then show "groups wd = groups wc" by (rule relocateEntity_groups)
  qed
  have keep1: "groups wb = groups wa"
    if "relocate_child ?N rel owner v cd e wa = Some wb" for e wa wb
  proof (rule relocate_child_groups [OF _ that])
    fix e' g' v' wc wd
    assume "relocateEntity rel n e' g' v' cd wc = Some wd"
    then show "groups wd = groups wc" by (rule relocateEntity_groups)
  qed
  have fin: "saved (ents w' owner) = saved (ents ?w0 owner)"
    by (rule frame [OF _ _ all]) simp_all
  have split: "\<exists>w1 w2.
         relocate_members ?N rel owner v cd pre ?w0 = Some w1 \<and>
         relocate_child ?N rel owner v cd m w1 = Some w2 \<and>
         relocate_members ?N rel owner v cd post (carry_member owner m w2) = Some w' \<and>
         saved (ents w2 owner) = saved (ents w' owner) \<and>
         ent_x (ents (carry_member owner m w2) m) =
           ent_x (ents w2 m) + saveDX (ents w2 m) +
           (if m = owner then 0 else saveDX (ents w' owner)) \<and>
         ent_y (ents (carry_member owner m w2) m) =
           ent_y (ents w2 m) + saveDY (ents w2 m) +
           (if m = owner then 0 else saveDY (ents w' owner))"
    if eq: "solidEntities g = pre @ m # post" for pre m post
  proof -
    from all eq obtain w1 where
      p1: "relocate_members ?N rel owner v cd pre ?w0 = Some w1" and
      p2: "relocate_members ?N rel owner v cd (m # post) w1 = Some w'"
      by (auto simp: relocate_members_append split: option.splits)
    from p2 obtain w2 where
      c: "relocate_child ?N rel owner v cd m w1 = Some w2" and
      p3: "relocate_members ?N rel owner v cd post (carry_member owner m w2) = Some w'"
      by (auto split: option.splits)
    have g1: "groups w1 = groups ?w0" by (rule keep [OF p1])
    have s1: "saved (ents w1 owner) = saved (ents ?w0 owner)"
      by (rule frame [OF _ _ p1]) (auto simp: eq)
    have r1: "nesting_ranked rank w1"
      using r0 nesting_ranked_groups [OF g1] by simp
    have s2: "saved (ents w2 owner) = saved (ents w1 owner)"
    proof (rule relocate_child_saved [OF rel' _ c])
      fix g' v' wd
      assume ne: "m \<noteq> owner" and gm: "groups w1 m = Some g'"
        and call: "relocateEntity rel n m g' v' cd w1 = Some wd"
      have mem: "m \<in> set (solidEntities g)" by (simp add: eq)
      from g0(1) g1 have go: "groups w1 owner = Some g" by simp
      from nesting_rankedD [OF r1 go mem ne gm] have "rank m < rank owner" .
      then have "groups w1 owner = None \<or> rank m < rank owner" by simp
      from relocateEntity_saved [OF rel' call gm r1 this]
      show "saved (ents wd owner) = saved (ents w1 owner)" .
    qed
    have s: "saved (ents w2 owner) = saved (ents w' owner)"
      using s2 s1 fin by simp
    then have d: "saveDX (ents w2 owner) = saveDX (ents w' owner)"
      "saveDY (ents w2 owner) = saveDY (ents w' owner)"
      by (simp_all add: saved_def)
    from p1 c p3 s carry_member_position [of owner m w2] show ?thesis
      by (simp add: d)
  qed
  from fin s0 have own: "saveDX (ents w' owner) = 0"
    "saveDY (ents w' owner) = saveDY (ents w owner) - (vec_y v - previousY (ents w owner))"
    by (simp_all add: saved_def)
  have single: "ent_x (ents w' m) =
                  ent_x (relocated_member rel owner v cd w m) +
                  saveDX (relocated_member rel owner v cd w m) +
                  (if m = owner then 0 else saveDX (ents w' owner)) \<and>
                ent_y (ents w' m) =
                  ent_y (relocated_member rel owner v cd w m) +
                  saveDY (relocated_member rel owner v cd w m) +
                  (if m = owner then 0 else saveDY (ents w' owner))"
    if mem: "m \<in> set (solidEntities g)"
      and once: "count_list (solidEntities g) m = 1"
      and nb: "\<forall>e \<in> set (solidEntities g). e \<noteq> owner \<longrightarrow> \<not> below (groups w) e m" for m
  proof -
    from split_list_first [OF mem] obtain pre post where
      eq: "solidEntities g = pre @ m # post" and npre: "m \<notin> set pre" by blast
    from once eq have "count_list post m = 0" by simp
    then have npost: "m \<notin> set post" by (simp add: count_list_0_iff)
    from split [OF eq] obtain w1 w2 where
      p1: "relocate_members ?N rel owner v cd pre ?w0 = Some w1" and
      c: "relocate_child ?N rel owner v cd m w1 = Some w2" and
      p3: "relocate_members ?N rel owner v cd post (carry_member owner m w2) = Some w'" and
      pos: "ent_x (ents (carry_member owner m w2) m) =
           ent_x (ents w2 m) + saveDX (ents w2 m) +
           (if m = owner then 0 else saveDX (ents w' owner))"
        "ent_y (ents (carry_member owner m w2) m) =
           ent_y (ents w2 m) + saveDY (ents w2 m) +
           (if m = owner then 0 else saveDY (ents w' owner))"
      by blast
    have g1: "groups w1 = groups w" using keep [OF p1] g0(2) by simp
    have g2: "groups w2 = groups w" using keep1 [OF c] g1 by simp
    have a_pre: "\<forall>c \<in> set pre. m \<noteq> c \<and> (c \<noteq> owner \<longrightarrow> \<not> below (groups ?w0) c m)"
      using npre nb eq by (auto simp: g0(2))
    have e1: "ents w1 m = ents ?w0 m"
      by (rule relocate_members_apart [OF relocateEntity_apart a_pre p1])
    have e2: "ents w2 m = relocated_member rel owner v cd w m"
    proof (cases "m \<noteq> owner \<and> groups w m \<noteq> None")
      case True
      then obtain g' where gm: "groups w1 m = Some g'" using g1 by auto
      let ?v1 = "\<lparr> vec_x = vec_x v - saveOX (ents w1 m), vec_y = vec_y v - saveOY (ents w1 m) \<rparr>"
      from c True gm have call: "relocateEntity rel n m g' ?v1 cd w1 = Some w2"
        by (simp add: relocate_child_def Let_def)
      from nb mem True have "\<not> below (groups w1) m m" by (simp add: g1)
      from relocateEntity_apart [OF call gm this]
      have "ents w2 m = ents (save_owner_delta m ?v1 cd w1) m" .
      also have "\<dots> = ents (save_owner_delta m ?v1 cd ?w0) m"
        by (rule save_owner_delta_local [OF e1])
      finally show ?thesis
        using True by (simp add: relocated_member_def Let_def e1)
    next
      case False
      then have "groups w1 m = None \<or> m = owner" using g1 by auto
      from relocate_child_flat [OF this, of ?N rel v cd] c
      have "ents w2 m = rel \<lparr> vec_x = vec_x v - saveOX (ents w1 m),
                              vec_y = vec_y v - saveOY (ents w1 m) \<rparr> cd (ents w1 m)"
        by auto
      with False show ?thesis
        by (auto simp: relocated_member_def Let_def e1)
    qed
    have a_post: "\<forall>c \<in> set post. m \<noteq> c \<and>
        (c \<noteq> owner \<longrightarrow> \<not> below (groups (carry_member owner m w2)) c m)"
      using npost nb eq by (auto simp: carry_member_groups g2)
    have e3: "ents w' m = ents (carry_member owner m w2) m"
      by (rule relocate_members_apart [OF relocateEntity_apart a_post p3])
    from pos e2 e3 show ?thesis by simp
  qed
  from w' own split single show ?thesis by blast
qed


theorem relocateEntity_owner_stopped_on_x_witness:
  "(\<forall>v cd e. saved (set_position v cd e) = saved e) \<and>
   groups moving_world 1 = Some crate_group \<and>
   nesting_ranked nested_rank moving_world \<and> nested_rank 1 \<le> 1 \<and>
   1 \<in> set (xEntries stopped_on_x) \<and> 1 \<notin> set (yEntries stopped_on_x) \<and>
   count_list (solidEntities crate_group) 1 = 1 \<and> count_list (solidEntities crate_group) 2 = 1 \<and>
   \<not> below (groups moving_world) 2 1 \<and> \<not> below (groups moving_world) 2 2 \<and>
   (\<exists>w'. relocateEntity set_position (Suc 1) 1 crate_group pushed_back stopped_on_x moving_world
           = Some w' \<and>
      saveDX (ents w' 1) = 0 \<and> saveDY (ents w' 1) = 1 \<and>
      ent_x (ents w' 2) = 13 \<and> ent_y (ents w' 2) = -17 \<and>
      ent_x (ents w' 1) = 10 \<and> ent_y (ents w' 1) = -7) \<and>
   groups towing_world 0 = Some platform_group \<and>
   nesting_ranked nested_rank towing_world \<and> nested_rank 0 \<le> 2 \<and>
   0 \<in> set (xEntries platform_stopped) \<and> 0 \<notin> set (yEntries platform_stopped) \<and>
   count_list (solidEntities platform_group) 1 = 1 \<and>
   \<not> below (groups towing_world) 1 1 \<and>
   (\<exists>w'. relocateEntity set_position (Suc 2) 0 platform_group lowered platform_stopped towing_world
           = Some w' \<and>
      saveDX (ents w' 0) = 0 \<and> saveDY (ents w' 0) = -1 \<and>
      ent_x (ents w' 1) = 24 \<and> ent_y (ents w' 1) = -16)"
proof -
  have rel: "\<forall>v cd e. saved (set_position v cd e) = saved e"
    by (simp add: set_position_def saved_def)
  have g: "groups moving_world 1 = Some crate_group"
    by (simp add: moving_world_def nested_world_def)
  have r: "nesting_ranked nested_rank moving_world"
    by (auto simp: moving_world_def nested_world_def nesting_ranked_def nested_rank_def
        platform_group_def crate_group_def split: if_splits)
  have n: "nested_rank 1 \<le> 1" by (simp add: nested_rank_def)
  have x: "1 \<in> set (xEntries stopped_on_x)" and y: "1 \<notin> set (yEntries stopped_on_x)"
    by (simp_all add: stopped_on_x_def)
  have c: "count_list (solidEntities crate_group) 1 = 1" "count_list (solidEntities crate_group) 2 = 1"
    by (simp_all add: crate_group_def)
  have b: "\<not> below (groups moving_world) 2 1" "\<not> below (groups moving_world) 2 2"
    by (rule below_None; simp add: moving_world_def nested_world_def)+
  have nb: "\<forall>e \<in> set (solidEntities crate_group). e \<noteq> 1 \<longrightarrow> \<not> below (groups moving_world) e m"
    if "\<not> below (groups moving_world) 2 m" for m
    using that by (simp add: crate_group_def)
  have mem: "2 \<in> set (solidEntities crate_group)" "1 \<in> set (solidEntities crate_group)"
    by (simp_all add: crate_group_def)
  from relocateEntity_owner_stopped_on_x [OF rel g r n x y, of pushed_back]
  obtain w' where
    1: "relocateEntity set_position (Suc 1) 1 crate_group pushed_back stopped_on_x moving_world = Some w'"
    and 2: "saveDX (ents w' 1) = 0"
      "saveDY (ents w' 1) = saveDY (ents moving_world 1) -
         (vec_y pushed_back - previousY (ents moving_world 1))"
    and 5: "\<forall>m \<in> set (solidEntities crate_group).
              count_list (solidEntities crate_group) m = 1 \<and>
              (\<forall>e \<in> set (solidEntities crate_group). e \<noteq> 1 \<longrightarrow> \<not> below (groups moving_world) e m) \<longrightarrow>
                ent_x (ents w' m) =
                  ent_x (relocated_member set_position 1 pushed_back stopped_on_x moving_world m) +
                  saveDX (relocated_member set_position 1 pushed_back stopped_on_x moving_world m) +
                  (if m = 1 then 0 else saveDX (ents w' 1)) \<and>
                ent_y (ents w' m) =
                  ent_y (relocated_member set_position 1 pushed_back stopped_on_x moving_world m) +
                  saveDY (relocated_member set_position 1 pushed_back stopped_on_x moving_world m) +
                  (if m = 1 then 0 else saveDY (ents w' 1))"
    by blast
  have v: "saveDY (ents w' 1) = 1"
    using 2(2) by (simp add: moving_world_def pushed_back_def box_entity_def)
  from 5 mem(1) c(2) nb [OF b(2)] have 3:
    "ent_x (ents w' 2) =
       ent_x (relocated_member set_position 1 pushed_back stopped_on_x moving_world 2) +
       saveDX (relocated_member set_position 1 pushed_back stopped_on_x moving_world 2) +
       saveDX (ents w' 1)"
    "ent_y (ents w' 2) =
       ent_y (relocated_member set_position 1 pushed_back stopped_on_x moving_world 2) +
       saveDY (relocated_member set_position 1 pushed_back stopped_on_x moving_world 2) +
       saveDY (ents w' 1)"
    by simp_all
  from 5 mem(2) c(1) nb [OF b(1)] have 4:
    "ent_x (ents w' 1) =
       ent_x (relocated_member set_position 1 pushed_back stopped_on_x moving_world 1) +
       saveDX (relocated_member set_position 1 pushed_back stopped_on_x moving_world 1)"
    "ent_y (ents w' 1) =
       ent_y (relocated_member set_position 1 pushed_back stopped_on_x moving_world 1) +
       saveDY (relocated_member set_position 1 pushed_back stopped_on_x moving_world 1)"
    by simp_all
  have p2: "ent_x (ents w' 2) = 13" "ent_y (ents w' 2) = -17"
    using 3 2(1) v
    by (simp_all add: relocated_member_def save_owner_delta_def Let_def moving_world_def
        nested_world_def pushed_back_def stopped_on_x_def box_entity_def set_position_def)
  have p1: "ent_x (ents w' 1) = 10" "ent_y (ents w' 1) = -7"
    using 4
    by (simp_all add: relocated_member_def save_owner_delta_def Let_def moving_world_def
        nested_world_def pushed_back_def stopped_on_x_def box_entity_def set_position_def)
  have first: "\<exists>w'. relocateEntity set_position (Suc 1) 1 crate_group pushed_back stopped_on_x
       moving_world = Some w' \<and>
      saveDX (ents w' 1) = 0 \<and> saveDY (ents w' 1) = 1 \<and>
      ent_x (ents w' 2) = 13 \<and> ent_y (ents w' 2) = -17 \<and>
      ent_x (ents w' 1) = 10 \<and> ent_y (ents w' 1) = -7"
    using 1 2(1) v p2 p1 by blast
  have g': "groups towing_world 0 = Some platform_group"
    by (simp add: towing_world_def moving_world_def nested_world_def)
  have r': "nesting_ranked nested_rank towing_world"
    by (auto simp: towing_world_def moving_world_def nested_world_def nesting_ranked_def
        nested_rank_def platform_group_def trailer_group_def split: if_splits)
  have n': "nested_rank 0 \<le> 2" by (simp add: nested_rank_def)
  have x': "0 \<in> set (xEntries platform_stopped)" and y': "0 \<notin> set (yEntries platform_stopped)"
    by (simp_all add: platform_stopped_def)
  have c': "count_list (solidEntities platform_group) 1 = 1"
    by (simp add: platform_group_def)
  have b': "\<not> below (groups towing_world) 1 1" by (rule not_below_trailer)
  then have nb': "\<forall>e \<in> set (solidEntities platform_group). e \<noteq> 0 \<longrightarrow>
      \<not> below (groups towing_world) e 1"
    by (simp add: platform_group_def)
  have mem': "1 \<in> set (solidEntities platform_group)" by (simp add: platform_group_def)
  from relocateEntity_owner_stopped_on_x [OF rel g' r' n' x' y', of lowered]
  obtain u' where
    6: "relocateEntity set_position (Suc 2) 0 platform_group lowered platform_stopped towing_world = Some u'"
    and 7: "saveDX (ents u' 0) = 0"
      "saveDY (ents u' 0) = saveDY (ents towing_world 0) -
         (vec_y lowered - previousY (ents towing_world 0))"
    and 8: "\<forall>m \<in> set (solidEntities platform_group).
              count_list (solidEntities platform_group) m = 1 \<and>
              (\<forall>e \<in> set (solidEntities platform_group). e \<noteq> 0 \<longrightarrow> \<not> below (groups towing_world) e m) \<longrightarrow>
                ent_x (ents u' m) =
                  ent_x (relocated_member set_position 0 lowered platform_stopped towing_world m) +
                  saveDX (relocated_member set_position 0 lowered platform_stopped towing_world m) +
                  (if m = 0 then 0 else saveDX (ents u' 0)) \<and>
                ent_y (ents u' m) =
                  ent_y (relocated_member set_position 0 lowered platform_stopped towing_world m) +
                  saveDY (relocated_member set_position 0 lowered platform_stopped towing_world m) +
                  (if m = 0 then 0 else saveDY (ents u' 0))"
    by blast
  have v': "saveDY (ents u' 0) = -1"
    using 7(2) by (simp add: towing_world_def moving_world_def nested_world_def lowered_def box_entity_def)
  from 8 mem' c' nb' have 9:
    "ent_x (ents u' 1) =
       ent_x (relocated_member set_position 0 lowered platform_stopped towing_world 1) +
       saveDX (relocated_member set_position 0 lowered platform_stopped towing_world 1) +
       saveDX (ents u' 0)"
    "ent_y (ents u' 1) =
       ent_y (relocated_member set_position 0 lowered platform_stopped towing_world 1) +
       saveDY (relocated_member set_position 0 lowered platform_stopped towing_world 1) +
       saveDY (ents u' 0)"
    by simp_all
  have p3: "ent_x (ents u' 1) = 24" "ent_y (ents u' 1) = -16"
    using 9 7(1) v'
    by (simp_all add: relocated_member_def save_owner_delta_def Let_def towing_world_def
        moving_world_def nested_world_def lowered_def platform_stopped_def box_entity_def
        set_position_def)
  have second: "\<exists>w'. relocateEntity set_position (Suc 2) 0 platform_group lowered platform_stopped
       towing_world = Some w' \<and>
      saveDX (ents w' 0) = 0 \<and> saveDY (ents w' 0) = -1 \<and>
      ent_x (ents w' 1) = 24 \<and> ent_y (ents w' 1) = -16"
    using 6 7(1) v' p3 by blast
  from rel g r n x y c b first g' r' n' x' y' c' b' second show ?thesis by blast
qed

text \<open>The call on the crate's group, evaluated.\<close>

lemma relocateEntity_example:
  "map_option (\<lambda>w'. (ent_x (ents w' 1), ent_y (ents w' 1), ent_x (ents w' 2), ent_y (ents w' 2),
       saved (ents w' 1)))
     (relocateEntity set_position 2 1 crate_group pushed_back stopped_on_x moving_world) =
   Some (10, -7, 13, -17, (0, 1))"
  by (simp add: eval_nat_numeral relocate_child_def carry_member_def save_owner_delta_def Let_def
      moving_world_def nested_world_def crate_group_def pushed_back_def stopped_on_x_def
      box_entity_def set_position_def saved_def)

text \<open>
  C8 as written fails for a member that has more than one turn. The platform's group is
  relocated at (0, 1), the platform colliding along x; the crate is a member of it and
  of its own group too. The crate is put at (0, 1) and moved by its saved delta
  (12, -8) in the loop of its own group, then moved by its saved delta once more and by
  the platform's (0, -1) in the loop of the platform's group: it ends at (24, -16),
  where its own saved delta plus the owner's would leave it at (12, -8).
\<close>

theorem relocateEntity_nested_member_twice:
  "groups moving_world 0 = Some platform_group \<and>
   0 \<in> set (xEntries platform_stopped) \<and> 0 \<notin> set (yEntries platform_stopped) \<and>
   1 \<in> set (solidEntities platform_group) \<and>
   (\<exists>w'. relocateEntity set_position 3 0 platform_group lowered platform_stopped moving_world
           = Some w' \<and>
      saved (ents w' 0) = (0, -1) \<and> saved (ents w' 1) = (12, -8) \<and>
      ent_x (ents w' 1) = 24 \<and> ent_y (ents w' 1) = -16 \<and>
      ent_x (ents w' 1) = vec_x lowered - saveOX (ents moving_world 1) +
        2 * saveDX (ents w' 1) + saveDX (ents w' 0) \<and>
      ent_y (ents w' 1) = vec_y lowered - saveOY (ents moving_world 1) +
        2 * saveDY (ents w' 1) + saveDY (ents w' 0) \<and>
      ent_x (ents w' 1) \<noteq> vec_x lowered - saveOX (ents moving_world 1) +
        saveDX (ents w' 1) + saveDX (ents w' 0) \<and>
      ent_y (ents w' 1) \<noteq> vec_y lowered - saveOY (ents moving_world 1) +
        saveDY (ents w' 1) + saveDY (ents w' 0))"
  by (simp add: eval_nat_numeral relocate_child_def carry_member_def save_owner_delta_def Let_def
      moving_world_def nested_world_def crate_group_def platform_group_def lowered_def
      platform_stopped_def box_entity_def set_position_def saved_def)

end
